theory Spec2Isabelle
  imports Main "HOL-Library.AList"
begin

section \<open>Python values\<close>

text \<open>
  The values that travel through \<^verbatim>\<open>connectors/byoei.py\<close> and
  \<^verbatim>\<open>connectors/es/management_client.py\<close>: \<^verbatim>\<open>None\<close>, booleans, strings, lists and
  dictionaries. A dictionary is an association list in insertion order, as Python keeps
  it; its keys are values themselves. Numbers are left out of the universe, so that
  Python's \<^verbatim>\<open>==\<close> on hashable values is HOL equality.
\<close>

datatype pyval =
    PNone
  | PBool bool
  | PStr string
  | PList "pyval list"
  | PDict "(pyval \<times> pyval) list"

type_synonym pydict = "(pyval \<times> pyval) list"

text \<open>The exceptions the modelled code can raise; \<open>Exception\<close> is one raised by a source.\<close>

datatype exn = KeyError pyval | TypeError | Exception string

text \<open>
  How a coroutine ends: it returns, it raises, or it stays suspended for ever
  (\<open>Pending\<close>: an \<^verbatim>\<open>await queue.get()\<close> that no producer will ever satisfy).
\<close>

datatype 'a outcome = Returned 'a | Raised exn | Pending

definition bind_exn :: "exn + 'a \<Rightarrow> ('a \<Rightarrow> exn + 'b) \<Rightarrow> exn + 'b" where
  "bind_exn r f = (case r of Inl e \<Rightarrow> Inl e | Inr x \<Rightarrow> f x)"

text \<open>Lists and dictionaries are unhashable: using one as a set member or dict key raises.\<close>

fun hashable :: "pyval \<Rightarrow> bool" where
  "hashable (PList _) = False"
| "hashable (PDict _) = False"
| "hashable _ = True"

text \<open>
  Python's \<^verbatim>\<open>==\<close>: dictionaries are equal when they have the same keys with equal
  values, in any order; everything else is structural.
\<close>

fun py_eq :: "pyval \<Rightarrow> pyval \<Rightarrow> bool" where
  "py_eq (PDict a) (PDict b) =
     (length a = length b \<and>
      list_all (\<lambda>kv. case map_of b (fst kv) of None \<Rightarrow> False
                                            | Some w \<Rightarrow> py_eq (snd kv) w) a)"
| "py_eq (PList a) (PList b) = list_all2 py_eq a b"
| "py_eq x y = (x = y)"

text \<open>\<^verbatim>\<open>d[key]\<close> with a string key: only a dictionary can answer, and only for a key it has.\<close>

fun getitem :: "pyval \<Rightarrow> pyval \<Rightarrow> exn + pyval" where
  "getitem (PDict d) k = (case map_of d k of None \<Rightarrow> Inl (KeyError k) | Some v \<Rightarrow> Inr v)"
| "getitem _ k = Inl TypeError"

text \<open>\<^verbatim>\<open>d.pop(key)\<close>: the value and the dictionary without the key, or \<^verbatim>\<open>KeyError\<close>.\<close>

definition dict_pop :: "pyval \<Rightarrow> pydict \<Rightarrow> exn + (pyval \<times> pydict)" where
  "dict_pop k d = (case map_of d k of None \<Rightarrow> Inl (KeyError k)
                                     | Some v \<Rightarrow> Inr (v, AList.delete k d))"

text \<open>\<^verbatim>\<open>d.get(key, default)\<close>.\<close>

definition dict_get :: "pydict \<Rightarrow> pyval \<Rightarrow> pyval \<Rightarrow> pyval" where
  "dict_get d k dflt = (case map_of d k of None \<Rightarrow> dflt | Some v \<Rightarrow> v)"

section \<open>The write queue and the bulk writer\<close>

definition END_DOCS :: pyval where
  "END_DOCS = PStr ''END_DOCS''"

definition END_DOWNLOADS :: pyval where
  "END_DOWNLOADS = PStr ''END_DOWNLOADS''"

text \<open>The two write-intents as \<^verbatim>\<open>get_docs\<close> and \<^verbatim>\<open>get_attachments\<close> build them.\<close>

definition upsert_intent :: "pyval \<Rightarrow> pyval \<Rightarrow> pydict \<Rightarrow> pyval" where
  "upsert_intent index doc_id doc =
     PDict [(PStr ''_op_type'', PStr ''update''), (PStr ''_index'', index),
            (PStr ''_id'', doc_id), (PStr ''doc'', PDict doc),
            (PStr ''doc_as_upsert'', PBool True)]"

definition delete_intent :: "pyval \<Rightarrow> pyval \<Rightarrow> pyval" where
  "delete_intent index doc_id =
     PDict [(PStr ''_op_type'', PStr ''delete''), (PStr ''_index'', index),
            (PStr ''_id'', doc_id)]"

text \<open>
  Lines 112 to 118 of \<^verbatim>\<open>_bulk\<close>: the two entries appended to the batch for one popped
  item. The subscripts are evaluated in the source's order, so the first one that fails
  decides the exception. The batch is a local of the coroutine: when a subscript raises,
  the batch is lost with it.
\<close>

definition bulk_lines :: "pyval \<Rightarrow> exn + pyval list" where
  "bulk_lines doc =
     bind_exn (getitem doc (PStr ''_op_type'')) (\<lambda>op.
     bind_exn (getitem doc (PStr ''_index'')) (\<lambda>idx.
     bind_exn (getitem doc (PStr ''_id'')) (\<lambda>i.
       if \<not> hashable op then Inl TypeError
       else
         let meta = PDict [(op, PDict [(PStr ''_index'', idx), (PStr ''_id'', i)])]
         in if op = PStr ''update''
            then bind_exn (getitem doc (PStr ''doc'')) (\<lambda>d.
                   Inr [meta, PDict [(PStr ''doc'', d), (PStr ''doc_as_upsert'', PBool True)]])
            else bind_exn (getitem doc (PStr ''doc'')) (\<lambda>d.
                   Inr [meta, PDict [(PStr ''doc'', d)]]))))"

text \<open>
  The locals of \<^verbatim>\<open>_bulk\<close>. \<open>ops\<close> holds the operations of every \<^verbatim>\<open>batch_bulk\<close> call
  dispatched so far, in order; \<open>popped\<close> is a ghost field, the items \<^verbatim>\<open>queue.get()\<close>
  has returned.
\<close>

record bulk_state =
  batch :: "pyval list"
  ops :: "pyval list list"
  docs_ended :: bool
  downloads_ended :: bool
  popped :: "pyval list"

definition bulk_init :: bulk_state where
  "bulk_init = \<lparr>batch = [], ops = [], docs_ended = False, downloads_ended = False,
                popped = []\<rparr>"

text \<open>
  How the \<^verbatim>\<open>while True\<close> loop is left: by its \<^verbatim>\<open>break\<close>, by an exception, or never,
  when the queue has run dry for good (\<open>Starved\<close>).
\<close>

datatype loop_exit = Break | Crash exn | Starved

text \<open>Lines 100 to 104: one item is popped and the end markers are recorded.\<close>

definition observe :: "pyval \<Rightarrow> bulk_state \<Rightarrow> bulk_state" where
  "observe doc st =
     (let st1 = st\<lparr>popped := popped st @ [doc]\<rparr>;
          st2 = (if doc = END_DOCS then st1\<lparr>docs_ended := True\<rparr> else st1)
      in if doc = END_DOWNLOADS then st2\<lparr>downloads_ended := True\<rparr> else st2)"

text \<open>
  Lines 112 to 122: the entries join the batch, and a batch that has reached twice the
  chunk size is dispatched as one \<^verbatim>\<open>batch_bulk\<close> call and cleared.
\<close>

definition push_lines :: "nat \<Rightarrow> pyval list \<Rightarrow> bulk_state \<Rightarrow> bulk_state" where
  "push_lines cs lines st =
     (let st4 = st\<lparr>batch := batch st @ lines\<rparr>
      in if length (batch st4) \<ge> cs * 2
         then st4\<lparr>ops := ops st4 @ [batch st4], batch := []\<rparr>
         else st4)"

text \<open>
  The loop over the whole sequence of items that is ever put on the queue. The queue is
  first-in first-out with this coroutine as its only consumer.
\<close>

fun bulk_loop :: "nat \<Rightarrow> pyval list \<Rightarrow> bulk_state \<Rightarrow> loop_exit \<times> bulk_state" where
  "bulk_loop cs [] st = (Starved, st)"
| "bulk_loop cs (doc # queue) st =
     (let st3 = observe doc st
      in if docs_ended st3 \<and> downloads_ended st3 then (Break, st3)
         else if doc = END_DOCS \<or> doc = END_DOWNLOADS then bulk_loop cs queue st3
         else (case bulk_lines doc of
                 Inl e \<Rightarrow> (Crash e, st3)
               | Inr lines \<Rightarrow> bulk_loop cs queue (push_lines cs lines st3)))"

text \<open>
  After the loop: the last partial batch is flushed when it is not empty, and every
  dispatched call is awaited. \<open>bulk_calls\<close> is what \<^verbatim>\<open>ops\<close> holds at the
  \<^verbatim>\<open>gather\<close>. The remote \<^verbatim>\<open>client.bulk\<close> is outside the repository; the model
  records each call's operations and takes the call to answer.
\<close>

definition final_flush :: "bulk_state \<Rightarrow> pyval list list" where
  "final_flush st = (if length (batch st) > 0 then ops st @ [batch st] else ops st)"

definition bulk :: "nat \<Rightarrow> pyval list \<Rightarrow> (pyval list list) outcome" where
  "bulk cs queue =
     (case bulk_loop cs queue bulk_init of
        (Break, st) \<Rightarrow> Returned (final_flush st)
      | (Crash e, st) \<Rightarrow> Raised e
      | (Starved, st) \<Rightarrow> Pending)"

text \<open>The items the writer has taken off the queue when it stops or stalls.\<close>

definition bulk_popped :: "nat \<Rightarrow> pyval list \<Rightarrow> pyval list" where
  "bulk_popped cs queue = popped (snd (bulk_loop cs queue bulk_init))"

text \<open>The write-intents among some queue items: everything but the two markers.\<close>

definition intents :: "pyval list \<Rightarrow> pyval list" where
  "intents xs = filter (\<lambda>x. x \<noteq> END_DOCS \<and> x \<noteq> END_DOWNLOADS) xs"

section \<open>The snapshot of the existing index\<close>

text \<open>
  Lines 137 to 139 of \<^verbatim>\<open>async_bulk\<close>, over the \<^verbatim>\<open>_source\<close> dictionaries that
  \<^verbatim>\<open>get_existing_ids\<close> yields (none when the index does not exist). \<^verbatim>\<open>existing_ids\<close>
  is a Python set: the model keeps it as a list without repetitions; the order in
  which Python would iterate over it is not specified, the model's is one of them.
\<close>

fun snapshot :: "pydict list \<Rightarrow> pyval list \<times> pydict \<Rightarrow> exn + (pyval list \<times> pydict)" where
  "snapshot [] acc = Inr acc"
| "snapshot (es_doc # rest) acc =
     bind_exn (getitem (PDict es_doc) (PStr ''id'')) (\<lambda>i.
       if \<not> hashable i then Inl TypeError
       else bind_exn (getitem (PDict es_doc) (PStr ''timestamp'')) (\<lambda>t.
              snapshot rest (List.insert i (fst acc), AList.update i t (snd acc))))"

section \<open>The document feed and its classification\<close>

text \<open>
  A deferred enrichment is called with \<^verbatim>\<open>doit\<close> and, when it is passed, the
  \<^verbatim>\<open>timestamp\<close> keyword; it answers \<^verbatim>\<open>None\<close> or a dictionary, or raises. A download task
  is such a call wrapped by \<^verbatim>\<open>loop.create_task\<close>: the model holds the result the task
  ends with, the object every later \<^verbatim>\<open>await\<close> of the task hands out again.
\<close>

type_synonym lazy_download = "bool \<Rightarrow> pyval option \<Rightarrow> exn + pydict option"

type_synonym task = "exn + pydict option"

text \<open>
  The source generator: the pairs it yields, each a document and its enrichment or
  \<^verbatim>\<open>None\<close>, and then either the end of the iteration or an exception.
\<close>

datatype feed_end = Exhausted | Fails exn

type_synonym feed = "(pydict \<times> lazy_download option) list \<times> feed_end"

text \<open>
  What \<^verbatim>\<open>get_docs\<close> reads from the enclosing \<^verbatim>\<open>async_bulk\<close>; \<open>iso_utc\<close> answers the
  \<open>n\<close>-th call of \<^verbatim>\<open>iso_utc()\<close>.
\<close>

record sync_ctx =
  index :: pyval
  existing_ids :: "pyval list"
  existing_timestamps :: pydict
  iso_utc :: "nat \<Rightarrow> pyval"

text \<open>
  What \<^verbatim>\<open>get_docs\<close> writes: the set \<^verbatim>\<open>seen_ids\<close>, the items put on the queue, the tasks
  appended to \<^verbatim>\<open>self._downloads\<close>, and two ghost fields: the calls of a deferred
  enrichment (document id and \<^verbatim>\<open>doit\<close>) and the number of \<^verbatim>\<open>iso_utc()\<close> calls.
\<close>

record docs_state =
  seen_ids :: "pyval list"
  stream :: "pyval list"
  scheduled :: "task list"
  invoked :: "(pyval \<times> bool) list"
  ticks :: nat

definition docs_init :: docs_state where
  "docs_init = \<lparr>seen_ids = [], stream = [], scheduled = [], invoked = [], ticks = 0\<rparr>"

text \<open>Lines 169 to 185: the download is scheduled when there is one, the upsert is put.\<close>

definition emit ::
  "sync_ctx \<Rightarrow> docs_state \<Rightarrow> pyval \<Rightarrow> pydict \<Rightarrow> pyval \<Rightarrow> lazy_download option \<Rightarrow> docs_state" where
  "emit c st doc_id doc ts lazy =
     (let st1 = (case lazy of
                   None \<Rightarrow> st
                 | Some f \<Rightarrow> st\<lparr>scheduled := scheduled st @ [f True (Some ts)],
                                invoked := invoked st @ [(doc_id, True)]\<rparr>)
      in st1\<lparr>stream := stream st1 @ [upsert_intent (index c) doc_id doc]\<rparr>)"

text \<open>
  Lines 151 to 185, the body of the \<^verbatim>\<open>async for\<close>: the state after the pair, and the
  exception when the body raises. \<^verbatim>\<open>lazy_download(doit=False)\<close> on \<^verbatim>\<open>None\<close> is a
  \<^verbatim>\<open>TypeError\<close>.
\<close>

definition classify ::
  "sync_ctx \<Rightarrow> docs_state \<Rightarrow> pydict \<times> lazy_download option \<Rightarrow> docs_state \<times> exn option" where
  "classify c st item =
     (case dict_pop (PStr ''_id'') (fst item) of
        Inl e \<Rightarrow> (st, Some e)
      | Inr (doc_id, popped_doc) \<Rightarrow>
          let doc = AList.update (PStr ''id'') doc_id popped_doc in
          if \<not> hashable doc_id then (st, Some TypeError)
          else
            let st1 = st\<lparr>seen_ids := List.insert doc_id (seen_ids st)\<rparr> in
            (case map_of doc (PStr ''timestamp'') of
               Some ts \<Rightarrow>
                 if py_eq (dict_get (existing_timestamps c) doc_id (PStr '''')) ts
                 then (case snd item of
                         None \<Rightarrow> (st1, Some TypeError)
                       | Some f \<Rightarrow>
                           let st2 = st1\<lparr>invoked := invoked st1 @ [(doc_id, False)]\<rparr> in
                           (case f False None of
                              Inl e \<Rightarrow> (st2, Some e)
                            | Inr _ \<Rightarrow> (st2, None)))
                 else (emit c st1 doc_id doc ts (snd item), None)
             | None \<Rightarrow>
                 let ts = iso_utc c (ticks st1);
                     st2 = st1\<lparr>ticks := Suc (ticks st1)\<rparr>
                 in (emit c st2 doc_id (AList.update (PStr ''timestamp'') ts doc) ts (snd item),
                     None)))"

fun feed_loop ::
  "sync_ctx \<Rightarrow> (pydict \<times> lazy_download option) list \<Rightarrow> docs_state \<Rightarrow> docs_state \<times> exn option" where
  "feed_loop c [] st = (st, None)"
| "feed_loop c (item # items) st =
     (case classify c st item of
        (st', Some e) \<Rightarrow> (st', Some e)
      | (st', None) \<Rightarrow> feed_loop c items st')"

text \<open>Lines 189 to 192: one delete for every existing id that was not seen.\<close>

definition sweep :: "sync_ctx \<Rightarrow> docs_state \<Rightarrow> pyval list" where
  "sweep c st =
     map (delete_intent (index c)) (filter (\<lambda>doc_id. doc_id \<notin> set (seen_ids st)) (existing_ids c))"

text \<open>
  \<^verbatim>\<open>get_docs\<close>: the loop over the feed, then the deletes and \<^verbatim>\<open>END_DOCS\<close>. Nothing
  catches an exception of the loop body or of the generator: the coroutine ends with it.
\<close>

definition get_docs :: "sync_ctx \<Rightarrow> feed \<Rightarrow> docs_state \<times> unit outcome" where
  "get_docs c generator =
     (case feed_loop c (fst generator) docs_init of
        (st, Some e) \<Rightarrow> (st, Raised e)
      | (st, None) \<Rightarrow>
          (case snd generator of
             Fails e \<Rightarrow> (st, Raised e)
           | Exhausted \<Rightarrow>
               (st\<lparr>stream := stream st @ sweep c st @ [END_DOCS]\<rparr>, Returned ())))"

section \<open>The enrichment drain\<close>

text \<open>
  \<^verbatim>\<open>get_attachments\<close> over the downloads its \<^verbatim>\<open>for\<close> loop gets to see: the items it
  puts, the downloads afterwards, and how it ends. \<^verbatim>\<open>data.pop("_id")\<close> changes the
  dictionary the task holds as its result, so the second component differs from the
  argument where a result was drained. Nothing catches the exception of an awaited task.
\<close>

fun get_attachments :: "pyval \<Rightarrow> task list \<Rightarrow> pyval list \<times> task list \<times> unit outcome" where
  "get_attachments idx [] = ([END_DOWNLOADS], [], Returned ())"
| "get_attachments idx (download # rest) =
     (case download of
        Inl e \<Rightarrow> ([], download # rest, Raised e)
      | Inr None \<Rightarrow>
          (case get_attachments idx rest of
             (puts, rest', r) \<Rightarrow> (puts, download # rest', r))
      | Inr (Some data) \<Rightarrow>
          (case dict_pop (PStr ''_id'') data of
             Inl e \<Rightarrow> ([], download # rest, Raised e)
           | Inr (doc_id, data') \<Rightarrow>
               (case get_attachments idx rest of
                  (puts, rest', r) \<Rightarrow>
                    (upsert_intent idx doc_id data' # puts, Inr (Some data') # rest', r))))"

section \<open>The pass\<close>

text \<open>The fields of \<^verbatim>\<open>ElasticServer\<close> that a pass reads or writes.\<close>

record server =
  downloads :: "task list"
  chunk_size :: nat

text \<open>\<^verbatim>\<open>__init__\<close>: no downloads yet, a chunk size of 500.\<close>

definition new_server :: server where
  "new_server = \<lparr>downloads = [], chunk_size = 500\<rparr>"

text \<open>
  The three coroutines run interleaved on one event loop. What the interleaving decides
  is taken as a parameter: \<open>reached\<close>, how many of the downloads scheduled in this pass
  are in \<^verbatim>\<open>self._downloads\<close> before the drain's iterator runs off its end, and
  \<open>order\<close>, which producer puts next (\<open>True\<close> for \<^verbatim>\<open>get_docs\<close>). Each producer's own
  items keep their order.
\<close>

record schedule =
  reached :: nat
  order :: "bool list"

fun interleave :: "bool list \<Rightarrow> 'a list \<Rightarrow> 'a list \<Rightarrow> 'a list" where
  "interleave bs [] ys = ys"
| "interleave bs (x # xs) [] = x # xs"
| "interleave [] (x # xs) (y # ys) = (x # xs) @ (y # ys)"
| "interleave (True # bs) (x # xs) (y # ys) = x # interleave bs xs (y # ys)"
| "interleave (False # bs) (x # xs) (y # ys) = y # interleave bs (x # xs) ys"

text \<open>
  \<^verbatim>\<open>await asyncio.gather(*ops)\<close>: it returns when every task has returned, re-raises
  the exception of the task that fails first, and waits for ever when no task fails and
  one never ends. Which task fails first is a matter of timing: the model keeps the
  exceptions of all failing tasks, in task order.
\<close>

datatype gathered = AllReturned | SomeRaised "exn list" | Waiting

fun raised :: "unit outcome \<Rightarrow> exn list" where
  "raised (Raised e) = [e]"
| "raised _ = []"

definition gather :: "unit outcome list \<Rightarrow> gathered" where
  "gather tasks =
     (let es = concat (map raised tasks)
      in if es \<noteq> [] then SomeRaised es
         else if Pending \<in> set tasks then Waiting
         else AllReturned)"

fun forget :: "'a outcome \<Rightarrow> unit outcome" where
  "forget (Returned x) = Returned ()"
| "forget (Raised e) = Raised e"
| "forget Pending = Pending"

text \<open>Everything that happens in one pass, kept for the statements about it.\<close>

record pass =
  docs :: docs_state
  docs_outcome :: "unit outcome"
  att_puts :: "pyval list"
  att_outcome :: "unit outcome"
  pass_queue :: "pyval list"
  bulk_outcome :: "(pyval list list) outcome"
  server_after :: server

definition run_pass :: "server \<Rightarrow> sync_ctx \<Rightarrow> feed \<Rightarrow> schedule \<Rightarrow> pass" where
  "run_pass self c generator sched =
     (let (dst, dout) = get_docs c generator;
          all_downloads = downloads self @ scheduled dst;
          n = length (downloads self) + min (reached sched) (length (scheduled dst));
          (puts, drained, aout) = get_attachments (index c) (take n all_downloads);
          q = interleave (order sched) (stream dst) puts
      in \<lparr>docs = dst, docs_outcome = dout, att_puts = puts, att_outcome = aout,
          pass_queue = q,
          bulk_outcome = bulk (chunk_size self) q,
          server_after = self\<lparr>downloads := drained @ drop n all_downloads\<rparr>\<rparr>)"

text \<open>
  What the caller of \<^verbatim>\<open>async_bulk\<close> gets: a dictionary, an exception, or nothing ever.
\<close>

datatype pass_result = Completed pydict | Failed "exn list" | Hangs

text \<open>
  \<^verbatim>\<open>async_bulk\<close>: the snapshot, the three tasks, the \<^verbatim>\<open>gather\<close>, and lines 225 and 226,
  \<^verbatim>\<open>res = {}\<close> and \<^verbatim>\<open>return dict(res)\<close>. An exception while the snapshot is read ends
  the call before any task exists.
\<close>

definition async_bulk ::
  "server \<Rightarrow> pyval \<Rightarrow> pydict list \<Rightarrow> feed \<Rightarrow> (nat \<Rightarrow> pyval) \<Rightarrow> schedule \<Rightarrow> pass_result \<times> server" where
  "async_bulk self idx es_docs generator clock sched =
     (case snapshot es_docs ([], []) of
        Inl e \<Rightarrow> (Failed [e], self)
      | Inr (ids, ts) \<Rightarrow>
          let c = \<lparr>index = idx, existing_ids = ids, existing_timestamps = ts, iso_utc = clock\<rparr>;
              p = run_pass self c generator sched;
              res = []
          in (case gather [docs_outcome p, att_outcome p, forget (bulk_outcome p)] of
                AllReturned \<Rightarrow> (Completed res, server_after p)
              | SomeRaised es \<Rightarrow> (Failed es, server_after p)
              | Waiting \<Rightarrow> (Hangs, server_after p)))"

text \<open>The ids of the delete intents among some queue items, in order.\<close>

definition is_delete :: "pyval \<Rightarrow> bool" where
  "is_delete x = (getitem x (PStr ''_op_type'') = Inr (PStr ''delete''))"

definition delete_ids :: "pyval list \<Rightarrow> pyval list" where
  "delete_ids xs =
     List.map_filter (\<lambda>x. if is_delete x
                           then (case getitem x (PStr ''_id'') of Inr i \<Rightarrow> Some i | Inl _ \<Rightarrow> None)
                           else None) xs"

text \<open>The ids the generator yields, and the ids read from the index.\<close>

definition feed_ids :: "feed \<Rightarrow> pyval list" where
  "feed_ids generator = List.map_filter (\<lambda>item. map_of (fst item) (PStr ''_id'')) (fst generator)"

definition snapshot_ids :: "pydict list \<Rightarrow> pyval list" where
  "snapshot_ids es_docs = List.map_filter (\<lambda>es_doc. map_of es_doc (PStr ''id'')) es_docs"


section \<open>Merging index mappings\<close>

text \<open>\<^verbatim>\<open>isinstance(value, Mapping)\<close>.\<close>

fun is_mapping :: "pyval \<Rightarrow> bool" where
  "is_mapping (PDict _) = True"
| "is_mapping _ = False"

text \<open>
  \<^verbatim>\<open>ChainMap.__getitem__\<close>: the value of the first underlying mapping that has the
  key; \<open>None\<close> stands for the \<^verbatim>\<open>KeyError\<close>.
\<close>

fun chain_get :: "pydict list \<Rightarrow> pyval \<Rightarrow> pyval option" where
  "chain_get [] k = None"
| "chain_get (m # ms) k = (case map_of m k of Some v \<Rightarrow> Some v | None \<Rightarrow> chain_get ms k)"

text \<open>
  \<^verbatim>\<open>ChainMap.__iter__\<close>: the keys of the last mapping in its order, then the keys of
  the mappings before it that are new, each key once.
\<close>

definition chain_keys :: "pydict list \<Rightarrow> pyval list" where
  "chain_keys maps = rev (remdups (rev (concat (map (map fst) (rev maps)))))"

text \<open>
  Lines 40 to 50 of \<^verbatim>\<open>_DeepChainMap.__getitem__\<close>: the mappings found under the key
  in the underlying mappings, in order, up to the first value that is not a mapping.
\<close>

fun deep_values :: "pydict list \<Rightarrow> pyval \<Rightarrow> pydict list" where
  "deep_values [] k = []"
| "deep_values (m # ms) k =
     (case map_of m k of
        None \<Rightarrow> deep_values ms k
      | Some (PDict d) \<Rightarrow> d # deep_values ms k
      | Some _ \<Rightarrow> [])"

text \<open>
  \<^verbatim>\<open>_DeepChainMap(*maps).to_dict()\<close>: for every key of the chain, \<^verbatim>\<open>self[k]\<close>, merged
  in depth when it is a view. The keys come from the underlying mappings, so the lookup
  finds every one of them; the empty branch is the \<^verbatim>\<open>KeyError\<close> that cannot happen.
\<close>

function to_dict :: "pydict list \<Rightarrow> pydict" where
  "to_dict maps =
     concat (map (\<lambda>k. case chain_get maps k of
                         None \<Rightarrow> []
                       | Some v \<Rightarrow> [(k, if is_mapping v
                                          then PDict (to_dict (deep_values maps k))
                                          else v)])
                 (chain_keys maps))"
  by pat_completeness auto
termination
proof (relation "measure (\<lambda>maps. sum_list (map (\<lambda>m. Suc (size (PDict m))) maps))")
  show "wf (measure (\<lambda>maps. sum_list (map (\<lambda>m. Suc (size (PDict m))) maps)))"
    by simp
next
  fix maps :: "pydict list" and k v
  assume "k \<in> set (chain_keys maps)"
  then have ne: "maps \<noteq> []"
    by (auto simp: chain_keys_def)
  have sz: "map_of m k = Some w \<Longrightarrow> size w < size (PDict m)" for m :: pydict and w
    by (induction m) (auto split: if_splits)
  have weak: "sum_list (map (\<lambda>m. Suc (size (PDict m))) (deep_values ms k))
                \<le> sum_list (map (\<lambda>m. Suc (size (PDict m))) ms)" for ms
  proof (induction ms)
    case Nil
    then show ?case by simp
  next
    case (Cons m ms)
    show ?case
    proof (cases "map_of m k")
      case None
      with Cons show ?thesis by simp
    next
      case (Some w)
      with sz[OF Some] Cons show ?thesis by (cases w) simp_all
    qed
  qed
  from ne obtain m ms where maps: "maps = m # ms"
    by (cases maps) auto
  have "sum_list (map (\<lambda>m. Suc (size (PDict m))) (deep_values (m # ms) k))
          < sum_list (map (\<lambda>m. Suc (size (PDict m))) (m # ms))"
  proof (cases "map_of m k")
    case None
    with weak[of ms] show ?thesis by simp
  next
    case (Some w)
    with sz[OF Some] weak[of ms] show ?thesis by (cases w) simp_all
  qed
  then show "(deep_values maps k, maps)
               \<in> measure (\<lambda>maps. sum_list (map (\<lambda>m. Suc (size (PDict m))) maps))"
    by (simp add: maps)
qed

text \<open>The equation of \<open>to_dict\<close> calls itself: it is unfolded where it is wanted.\<close>

declare to_dict.simps [simp del]

text \<open>Python's truth value of a value, as the \<^verbatim>\<open>if\<close> at line 115 takes it.\<close>

fun truthy :: "pyval \<Rightarrow> bool" where
  "truthy PNone = False"
| "truthy (PBool b) = b"
| "truthy (PStr s) = (s \<noteq> [])"
| "truthy (PList xs) = (xs \<noteq> [])"
| "truthy (PDict d) = (d \<noteq> [])"

text \<open>
  Lines 115 to 124 of \<^verbatim>\<open>ensure_content_index_mappings\<close>: \<open>index_info\<close> is
  \<^verbatim>\<open>response[index]\<close>. A value under \<^verbatim>\<open>"mappings"\<close> that is true and is no dictionary
  cannot be chained: iterating it or subscripting it with a key raises \<^verbatim>\<open>TypeError\<close>.
\<close>

definition desired_mappings :: "pydict \<Rightarrow> pydict \<Rightarrow> exn + pydict" where
  "desired_mappings index_info mappings =
     (let existing_mappings = dict_get index_info (PStr ''mappings'') (PDict [])
      in if truthy existing_mappings
         then (case existing_mappings of
                 PDict existing \<Rightarrow> Inr (to_dict [existing, mappings])
               | _ \<Rightarrow> Inl TypeError)
         else Inr mappings)"

text \<open>
  The field of a mapping at a path of keys, and the fields that are values, not mappings
  themselves.
\<close>

fun at_path :: "pyval \<Rightarrow> pyval list \<Rightarrow> pyval option" where
  "at_path v [] = Some v"
| "at_path (PDict d) (k # ks) = (case map_of d k of None \<Rightarrow> None | Some v \<Rightarrow> at_path v ks)"
| "at_path _ (k # ks) = None"

definition leaf_at :: "pyval \<Rightarrow> pyval list \<Rightarrow> pyval \<Rightarrow> bool" where
  "leaf_at m p v = (at_path m p = Some v \<and> \<not> is_mapping v)"

text \<open>
  A path that is open in a mapping: it runs through nested mappings and comes to a key
  that is not there. A path that meets a value, or ends on something, is not open.
\<close>

fun open_path :: "pyval \<Rightarrow> pyval list \<Rightarrow> bool" where
  "open_path v [] = False"
| "open_path (PDict d) (k # ks) = (case map_of d k of None \<Rightarrow> True | Some v \<Rightarrow> open_path v ks)"
| "open_path _ (k # ks) = False"


section \<open>Example runs\<close>

text \<open>
  \<^verbatim>\<open>FakeSource._dl\<close> of \<^verbatim>\<open>connectors/tests/fake_sources.py\<close>, bound to a document id as
  \<^verbatim>\<open>partial(self._dl, doc_id)\<close> does: nothing without \<^verbatim>\<open>doit\<close>, else a dictionary with the
  id, the timestamp and a text.
\<close>

definition fake_dl :: "pyval \<Rightarrow> lazy_download" where
  "fake_dl doc_id doit timestamp =
     (if \<not> doit then Inr None
      else Inr (Some [(PStr ''_id'', doc_id),
                      (PStr ''_timestamp'', (case timestamp of None \<Rightarrow> PNone | Some t \<Rightarrow> t)),
                      (PStr ''text'', PStr ''xx'')]))"

text \<open>
  The scenario of the specification: the index holds \<^verbatim>\<open>id1\<close> and \<^verbatim>\<open>id2\<close> at token
  \<^verbatim>\<open>t0\<close>; the feed yields \<^verbatim>\<open>id1\<close> at \<^verbatim>\<open>t0\<close> and \<^verbatim>\<open>id3\<close> at \<^verbatim>\<open>t1\<close>.
  \<open>scenario_ctx\<close> is what \<^verbatim>\<open>async_bulk\<close> builds from that index.
\<close>

definition scenario_index :: "pydict list" where
  "scenario_index = [[(PStr ''id'', PStr ''id1''), (PStr ''timestamp'', PStr ''t0'')],
                     [(PStr ''id'', PStr ''id2''), (PStr ''timestamp'', PStr ''t0'')]]"

definition scenario_feed :: feed where
  "scenario_feed =
     ([([(PStr ''_id'', PStr ''id1''), (PStr ''timestamp'', PStr ''t0'')], Some (fake_dl (PStr ''id1''))),
       ([(PStr ''_id'', PStr ''id3''), (PStr ''timestamp'', PStr ''t1'')], Some (fake_dl (PStr ''id3'')))],
      Exhausted)"

definition scenario_ctx :: sync_ctx where
  "scenario_ctx = \<lparr>index = PStr ''search-idx'', existing_ids = [PStr ''id2'', PStr ''id1''],
                    existing_timestamps = [(PStr ''id1'', PStr ''t0''), (PStr ''id2'', PStr ''t0'')],
                    iso_utc = (\<lambda>n. PStr ''now'')\<rparr>"

text \<open>
  The feed of \<^verbatim>\<open>FakeSource.get_docs\<close>, one document without a token, and a feed that
  raises after that document.
\<close>

definition fake_feed :: feed where
  "fake_feed = ([([(PStr ''_id'', PStr ''1'')], Some (fake_dl (PStr ''1'')))], Exhausted)"

definition failing_feed :: feed where
  "failing_feed = ([([(PStr ''_id'', PStr ''1'')], Some (fake_dl (PStr ''1'')))],
                   Fails (Exception ''I fail while syncing''))"

text \<open>What \<^verbatim>\<open>async_bulk\<close> builds from an index that is empty or absent.\<close>

definition empty_ctx :: sync_ctx where
  "empty_ctx = \<lparr>index = PStr ''search-idx'', existing_ids = [], existing_timestamps = [],
                 iso_utc = (\<lambda>n. PStr ''now'')\<rparr>"

text \<open>
  The interleaving of a run with one document and a generator that never suspends:
  \<^verbatim>\<open>get_docs\<close> puts its upsert before the drain starts, the drain finds the download,
  and \<^verbatim>\<open>get_docs\<close> puts \<^verbatim>\<open>END_DOCS\<close> before the drain puts anything.
\<close>

definition docs_first :: schedule where
  "docs_first = \<lparr>reached = 1, order = [True, True]\<rparr>"

text \<open>Three downloads: an empty result, a task that raised, and a result.\<close>

definition failing_downloads :: "task list" where
  "failing_downloads =
     [Inr None, Inl (Exception ''download failed''),
      Inr (Some [(PStr ''_id'', PStr ''2''), (PStr ''text'', PStr ''xx'')])]"

text \<open>
  Two passes on one \<^verbatim>\<open>ElasticServer\<close>: the first on an empty index, the second on the
  index as the first left it, both with the feed of \<^verbatim>\<open>FakeSource\<close>.
\<close>

definition first_pass :: "pass_result \<times> server" where
  "first_pass = async_bulk new_server (PStr ''search-idx'') [] fake_feed (\<lambda>n. PStr ''now'') docs_first"

definition second_index :: "pydict list" where
  "second_index = [[(PStr ''id'', PStr ''1''), (PStr ''timestamp'', PStr ''now'')]]"

definition second_ctx :: sync_ctx where
  "second_ctx = \<lparr>index = PStr ''search-idx'', existing_ids = [PStr ''1''],
                  existing_timestamps = [(PStr ''1'', PStr ''now'')],
                  iso_utc = (\<lambda>n. PStr ''later'')\<rparr>"

definition second_pass :: "pass_result \<times> server" where
  "second_pass = async_bulk (snd first_pass) (PStr ''search-idx'') second_index fake_feed
                   (\<lambda>n. PStr ''later'') docs_first"

text \<open>
  An index that maps \<^verbatim>\<open>id\<close> as a keyword, and new mappings that want \<^verbatim>\<open>id\<close> as text,
  add a field \<^verbatim>\<open>body\<close>, and differ in \<^verbatim>\<open>dynamic\<close>.
\<close>

definition example_index_info :: pydict where
  "example_index_info =
     [(PStr ''mappings'',
       PDict [(PStr ''dynamic'', PBool True),
              (PStr ''properties'',
               PDict [(PStr ''id'', PDict [(PStr ''type'', PStr ''keyword'')])])])]"

definition example_mappings :: pydict where
  "example_mappings =
     [(PStr ''dynamic'', PStr ''strict''),
      (PStr ''dynamic_templates'', PList []),
      (PStr ''properties'',
       PDict [(PStr ''id'', PDict [(PStr ''type'', PStr ''text''), (PStr ''index'', PBool False)]),
              (PStr ''body'', PDict [(PStr ''type'', PStr ''text'')])])]"

section \<open>Auxiliary definitions for the proofs\<close>

text \<open>
  The batching invariant of the writer's loop: with \<open>m\<close> intents consumed, the batch holds
  the last \<open>m mod cs\<close> of them and \<open>m div cs\<close> full batches have been dispatched.
\<close>

definition batched :: "nat \<Rightarrow> bulk_state \<Rightarrow> bool" where
  "batched cs st =
     (length (batch st) = 2 * (length (intents (popped st)) mod cs) \<and>
      map length (ops st) = replicate (length (intents (popped st)) div cs) (2 * cs))"

text \<open>A queue with five upserts, both markers, and one more upsert behind them.\<close>

definition q5 :: "pyval list" where
  "q5 = [upsert_intent (PStr ''idx'') (PStr ''1'') [], upsert_intent (PStr ''idx'') (PStr ''2'') [],
         END_DOWNLOADS,
         upsert_intent (PStr ''idx'') (PStr ''3'') [], upsert_intent (PStr ''idx'') (PStr ''4'') [],
         upsert_intent (PStr ''idx'') (PStr ''5'') [], END_DOCS, upsert_intent (PStr ''idx'') (PStr ''6'') []]"

text \<open>Items that are all upserts for one index, as the loop over the feed puts them.\<close>

definition upserts_only :: "pyval \<Rightarrow> pyval list \<Rightarrow> bool" where
  "upserts_only idx xs = (\<forall>x\<in>set xs. \<exists>i d. x = upsert_intent idx i d)"

text \<open>
  A download as a second drain finds it: a result that was drained has lost its
  \<^verbatim>\<open>"_id"\<close>, every other task is as it was.
\<close>

definition strip_id :: "task \<Rightarrow> task" where
  "strip_id t = (case t of Inr (Some d) \<Rightarrow> Inr (Some (AList.delete (PStr ''_id'') d)) | _ \<Rightarrow> t)"



text \<open>An upsert and a delete, as a pass with one new and one vanished document queues them.\<close>

definition mixed_queue :: "pyval list" where
  "mixed_queue = [upsert_intent (PStr ''search-idx'') (PStr ''id3'') [(PStr ''id'', PStr ''id3'')],
                  delete_intent (PStr ''search-idx'') (PStr ''id2''),
                  END_DOCS, END_DOWNLOADS]"

section \<open>Properties of the bulk writer\<close>

lemma bulk_lines_length: "bulk_lines doc = Inr ls \<Longrightarrow> length ls = 2"
  by (auto simp: bulk_lines_def bind_exn_def Let_def split: sum.splits if_splits)

lemma bulk_lines_delete: "bulk_lines (delete_intent idx i) = Inl (KeyError (PStr ''doc''))"
  by (simp add: bulk_lines_def bind_exn_def delete_intent_def)

lemma bulk_lines_upsert:
  "bulk_lines (upsert_intent idx i d) =
     Inr [PDict [(PStr ''update'', PDict [(PStr ''_index'', idx), (PStr ''_id'', i)])],
          PDict [(PStr ''doc'', PDict d), (PStr ''doc_as_upsert'', PBool True)]]"
  by (simp add: bulk_lines_def bind_exn_def upsert_intent_def)

lemma observe_simps:
  "popped (observe doc st) = popped st @ [doc]"
  "docs_ended (observe doc st) = (docs_ended st \<or> doc = END_DOCS)"
  "downloads_ended (observe doc st) = (downloads_ended st \<or> doc = END_DOWNLOADS)"
  "batch (observe doc st) = batch st"
  "ops (observe doc st) = ops st"
  by (simp_all add: observe_def Let_def)

lemma push_lines_simps:
  "popped (push_lines cs ls st) = popped st"
  "docs_ended (push_lines cs ls st) = docs_ended st"
  "downloads_ended (push_lines cs ls st) = downloads_ended st"
  by (simp_all add: push_lines_def Let_def)

lemma bulk_loop_break:
  "docs_ended (observe doc st) \<and> downloads_ended (observe doc st) \<Longrightarrow>
   bulk_loop cs (doc # q) st = (Break, observe doc st)"
  by (simp add: Let_def)

lemma bulk_loop_marker:
  "\<not> (docs_ended (observe doc st) \<and> downloads_ended (observe doc st)) \<Longrightarrow>
   doc = END_DOCS \<or> doc = END_DOWNLOADS \<Longrightarrow>
   bulk_loop cs (doc # q) st = bulk_loop cs q (observe doc st)"
  by (auto simp: Let_def)

lemma bulk_loop_crash:
  "\<not> (docs_ended (observe doc st) \<and> downloads_ended (observe doc st)) \<Longrightarrow>
   \<not> (doc = END_DOCS \<or> doc = END_DOWNLOADS) \<Longrightarrow> bulk_lines doc = Inl e \<Longrightarrow>
   bulk_loop cs (doc # q) st = (Crash e, observe doc st)"
  by (auto simp: Let_def)

lemma bulk_loop_intent:
  "\<not> (docs_ended (observe doc st) \<and> downloads_ended (observe doc st)) \<Longrightarrow>
   \<not> (doc = END_DOCS \<or> doc = END_DOWNLOADS) \<Longrightarrow> bulk_lines doc = Inr ls \<Longrightarrow>
   bulk_loop cs (doc # q) st = bulk_loop cs q (push_lines cs ls (observe doc st))"
  by (auto simp: Let_def)

lemma bulk_loop_track:
  "bulk_loop cs q st = (ex, st') \<Longrightarrow>
   \<exists>p r. q = p @ r \<and> popped st' = popped st @ p \<and>
     docs_ended st' = (docs_ended st \<or> END_DOCS \<in> set p) \<and>
     downloads_ended st' = (downloads_ended st \<or> END_DOWNLOADS \<in> set p) \<and>
     (ex = Break \<longrightarrow> docs_ended st' \<and> downloads_ended st') \<and>
     (\<not> (docs_ended st \<and> downloads_ended st) \<longrightarrow> docs_ended st' \<and> downloads_ended st' \<longrightarrow> ex = Break)"
proof (induction q arbitrary: st)
  case Nil
  then show ?case by auto
next
  case (Cons doc q)
  let ?st3 = "observe doc st"
  show ?case
  proof (cases "docs_ended ?st3 \<and> downloads_ended ?st3")
    case True
    with Cons.prems bulk_loop_break[of doc st cs q] have e: "ex = Break" "st' = ?st3" by auto
    have "doc # q = [doc] @ q \<and> popped st' = popped st @ [doc] \<and>
     docs_ended st' = (docs_ended st \<or> END_DOCS \<in> set [doc]) \<and>
     downloads_ended st' = (downloads_ended st \<or> END_DOWNLOADS \<in> set [doc]) \<and>
     (ex = Break \<longrightarrow> docs_ended st' \<and> downloads_ended st') \<and>
     (\<not> (docs_ended st \<and> downloads_ended st) \<longrightarrow> docs_ended st' \<and> downloads_ended st' \<longrightarrow> ex = Break)"
      using e True by (auto simp: observe_simps)
    then show ?thesis by blast
  next
    case nb: False
    show ?thesis
    proof (cases "doc = END_DOCS \<or> doc = END_DOWNLOADS")
      case True
      with nb Cons.prems bulk_loop_marker[of doc st cs q] have "bulk_loop cs q ?st3 = (ex, st')" by metis
      from Cons.IH[OF this] obtain p r where
        h: "q = p @ r" "popped st' = popped ?st3 @ p"
           "docs_ended st' = (docs_ended ?st3 \<or> END_DOCS \<in> set p)"
           "downloads_ended st' = (downloads_ended ?st3 \<or> END_DOWNLOADS \<in> set p)"
           "ex = Break \<longrightarrow> docs_ended st' \<and> downloads_ended st'"
           "\<not> (docs_ended ?st3 \<and> downloads_ended ?st3) \<longrightarrow> docs_ended st' \<and> downloads_ended st' \<longrightarrow> ex = Break"
        by blast
      have "doc # q = (doc # p) @ r \<and> popped st' = popped st @ (doc # p) \<and>
     docs_ended st' = (docs_ended st \<or> END_DOCS \<in> set (doc # p)) \<and>
     downloads_ended st' = (downloads_ended st \<or> END_DOWNLOADS \<in> set (doc # p)) \<and>
     (ex = Break \<longrightarrow> docs_ended st' \<and> downloads_ended st') \<and>
     (\<not> (docs_ended st \<and> downloads_ended st) \<longrightarrow> docs_ended st' \<and> downloads_ended st' \<longrightarrow> ex = Break)"
        using h nb by (auto simp: observe_simps)
      then show ?thesis by blast
    next
      case nm: False
      show ?thesis
      proof (cases "bulk_lines doc")
        case (Inl e)
        with nb nm Cons.prems bulk_loop_crash[of doc st e cs q] have e: "ex = Crash e" "st' = ?st3" by auto
        have "doc # q = [doc] @ q \<and> popped st' = popped st @ [doc] \<and>
     docs_ended st' = (docs_ended st \<or> END_DOCS \<in> set [doc]) \<and>
     downloads_ended st' = (downloads_ended st \<or> END_DOWNLOADS \<in> set [doc]) \<and>
     (ex = Break \<longrightarrow> docs_ended st' \<and> downloads_ended st') \<and>
     (\<not> (docs_ended st \<and> downloads_ended st) \<longrightarrow> docs_ended st' \<and> downloads_ended st' \<longrightarrow> ex = Break)"
          using e nb nm by (auto simp: observe_simps)
        then show ?thesis by blast
      next
        case (Inr ls)
        let ?st4 = "push_lines cs ls ?st3"
        from Inr nb nm Cons.prems bulk_loop_intent[of doc st ls cs q] have "bulk_loop cs q ?st4 = (ex, st')" by metis
        from Cons.IH[OF this] obtain p r where
          h: "q = p @ r" "popped st' = popped ?st4 @ p"
           "docs_ended st' = (docs_ended ?st4 \<or> END_DOCS \<in> set p)"
           "downloads_ended st' = (downloads_ended ?st4 \<or> END_DOWNLOADS \<in> set p)"
           "ex = Break \<longrightarrow> docs_ended st' \<and> downloads_ended st'"
           "\<not> (docs_ended ?st4 \<and> downloads_ended ?st4) \<longrightarrow> docs_ended st' \<and> downloads_ended st' \<longrightarrow> ex = Break"
          by blast
        have "doc # q = (doc # p) @ r \<and> popped st' = popped st @ (doc # p) \<and>
     docs_ended st' = (docs_ended st \<or> END_DOCS \<in> set (doc # p)) \<and>
     downloads_ended st' = (downloads_ended st \<or> END_DOWNLOADS \<in> set (doc # p)) \<and>
     (ex = Break \<longrightarrow> docs_ended st' \<and> downloads_ended st') \<and>
     (\<not> (docs_ended st \<and> downloads_ended st) \<longrightarrow> docs_ended st' \<and> downloads_ended st' \<longrightarrow> ex = Break)"
          using h nb nm by (auto simp: observe_simps push_lines_simps)
        then show ?thesis by blast
      qed
    qed
  qed
qed


lemma batched_init: "batched cs bulk_init"
  by (simp add: batched_def bulk_init_def intents_def)

lemma batched_marker:
  "doc = END_DOCS \<or> doc = END_DOWNLOADS \<Longrightarrow> batched cs st \<Longrightarrow> batched cs (observe doc st)"
  by (auto simp: batched_def observe_simps intents_def)

lemma batched_push:
  assumes "0 < cs" "batched cs st" "\<not> (doc = END_DOCS \<or> doc = END_DOWNLOADS)" "length ls = 2"
  shows "batched cs (push_lines cs ls (observe doc st))"
proof -
  let ?m = "length (intents (popped st))"
  have m': "length (intents (popped (observe doc st))) = Suc ?m"
    using assms(3) by (simp add: observe_simps intents_def)
  have b: "length (batch st) = 2 * (?m mod cs)" and o: "map length (ops st) = replicate (?m div cs) (2 * cs)"
    using assms(2) by (simp_all add: batched_def)
  have lt: "?m mod cs < cs" using assms(1) by simp
  show ?thesis
  proof (cases "Suc (?m mod cs) = cs")
    case True
    then have "Suc ?m mod cs = 0" "Suc ?m div cs = Suc (?m div cs)"
      by (simp_all add: mod_Suc div_Suc)
    moreover have "length (batch st @ ls) = 2 * cs"
      using True b assms(4) by auto
    ultimately show ?thesis using o m'
      by (simp add: batched_def push_lines_def Let_def observe_simps replicate_append_same)
  next
    case False
    then have "Suc ?m mod cs = Suc (?m mod cs)" "Suc ?m div cs = ?m div cs"
      by (simp_all add: mod_Suc div_Suc)
    moreover have "Suc (?m mod cs) < cs" using False lt by simp
    ultimately show ?thesis using b o assms(4) m'
      by (auto simp: batched_def push_lines_def Let_def observe_simps)
  qed
qed

lemma bulk_loop_batched:
  "0 < cs \<Longrightarrow> bulk_loop cs q st = (Break, st') \<Longrightarrow> batched cs st \<Longrightarrow>
   \<not> (docs_ended st \<and> downloads_ended st) \<Longrightarrow> batched cs st'"
proof (induction q arbitrary: st)
  case Nil
  then show ?case by simp
next
  case (Cons doc q)
  let ?st3 = "observe doc st"
  show ?case
  proof (cases "docs_ended ?st3 \<and> downloads_ended ?st3")
    case True
    with Cons.prems bulk_loop_break[of doc st cs q] have e: "st' = ?st3" by auto
    have "doc = END_DOCS \<or> doc = END_DOWNLOADS"
      using True Cons.prems(4) by (auto simp: observe_simps)
    from batched_marker[OF this Cons.prems(3)] e show ?thesis by simp
  next
    case nb: False
    show ?thesis
    proof (cases "doc = END_DOCS \<or> doc = END_DOWNLOADS")
      case True
      with nb Cons.prems bulk_loop_marker[of doc st cs q] have "bulk_loop cs q ?st3 = (Break, st')" by metis
      from Cons.IH[OF Cons.prems(1) this batched_marker[OF True Cons.prems(3)] nb] show ?thesis .
    next
      case nm: False
      show ?thesis
      proof (cases "bulk_lines doc")
        case (Inl e)
        with nb nm Cons.prems bulk_loop_crash[of doc st e cs q] show ?thesis by auto
      next
        case (Inr ls)
        from Inr nb nm Cons.prems bulk_loop_intent[of doc st ls cs q]
        have "bulk_loop cs q (push_lines cs ls ?st3) = (Break, st')" by metis
        moreover have "\<not> (docs_ended (push_lines cs ls ?st3) \<and> downloads_ended (push_lines cs ls ?st3))"
          using nb by (simp add: push_lines_simps)
        ultimately show ?thesis
          using Cons.IH[OF Cons.prems(1)]
            batched_push[OF Cons.prems(1) Cons.prems(3) nm bulk_lines_length[OF Inr]]
          by blast
      qed
    qed
  qed
qed

lemma ceil_div:
  assumes "0 < (cs::nat)"
  shows "(M + cs - 1) div cs = M div cs + (if M mod cs = 0 then 0 else 1)"
proof -
  define q r where "q = M div cs" and "r = M mod cs"
  have M: "M = cs * q + r" and r: "r < cs"
    using assms by (simp_all add: q_def r_def)
  show ?thesis
  proof (cases "r = 0")
    case True
    have "(M + cs - 1) div cs = q"
      by (rule div_nat_eqI) (use M r True assms in \<open>auto simp: algebra_simps\<close>)
    then show ?thesis using True by (simp add: q_def r_def)
  next
    case False
    have "(M + cs - 1) div cs = Suc q"
      by (rule div_nat_eqI) (use M r False assms in \<open>auto simp: algebra_simps\<close>)
    then show ?thesis using False by (simp add: q_def r_def)
  qed
qed

lemma bulk_Returned_iff:
  "(\<exists>calls. bulk cs queue = Returned calls) = (fst (bulk_loop cs queue bulk_init) = Break)"
proof -
  obtain ex st' where r: "bulk_loop cs queue bulk_init = (ex, st')"
    by (cases "bulk_loop cs queue bulk_init")
  show ?thesis using r by (cases ex) (simp_all add: bulk_def)
qed

lemma bulk_loop_init_track:
  "fst (bulk_loop cs queue bulk_init) = Break \<longleftrightarrow>
     END_DOCS \<in> set (bulk_popped cs queue) \<and> END_DOWNLOADS \<in> set (bulk_popped cs queue)"
proof -
  obtain ex st' where r: "bulk_loop cs queue bulk_init = (ex, st')"
    by (cases "bulk_loop cs queue bulk_init")
  from bulk_loop_track[OF r] obtain p rest where
    h: "queue = p @ rest" "popped st' = popped bulk_init @ p"
       "docs_ended st' = (docs_ended bulk_init \<or> END_DOCS \<in> set p)"
       "downloads_ended st' = (downloads_ended bulk_init \<or> END_DOWNLOADS \<in> set p)"
       "ex = Break \<longrightarrow> docs_ended st' \<and> downloads_ended st'"
       "\<not> (docs_ended bulk_init \<and> downloads_ended bulk_init) \<longrightarrow>
          docs_ended st' \<and> downloads_ended st' \<longrightarrow> ex = Break"
    by blast
  have pp: "bulk_popped cs queue = p"
    using h(2) r by (simp add: bulk_popped_def bulk_init_def)
  have de: "docs_ended st' = (END_DOCS \<in> set p)"
    using h(3) by (simp add: bulk_init_def)
  have dl: "downloads_ended st' = (END_DOWNLOADS \<in> set p)"
    using h(4) by (simp add: bulk_init_def)
  have "\<not> (docs_ended bulk_init \<and> downloads_ended bulk_init)"
    by (simp add: bulk_init_def)
  with h(5,6) have "(ex = Break) = (docs_ended st' \<and> downloads_ended st')"
    by blast
  moreover have "fst (bulk_loop cs queue bulk_init) = ex"
    by (simp add: r)
  ultimately show ?thesis
    by (simp only: pp de dl)
qed






lemma bulk_popped_prefix: "\<exists>rest. queue = bulk_popped cs queue @ rest"
proof -
  obtain ex st' where r: "bulk_loop cs queue bulk_init = (ex, st')"
    by (cases "bulk_loop cs queue bulk_init")
  from bulk_loop_track[OF r] show ?thesis
    using r by (auto simp: bulk_popped_def bulk_init_def)
qed

text \<open>
  The count of calls for a run of the writer that returns, with a chunk size \<open>cs > 0\<close> and
  \<open>M\<close> write-intents popped: \<open>M div cs\<close> full calls of \<open>cs\<close> intents (two entries each) and
  one more with the remainder when it is not zero.
\<close>

lemma bulk_call_count_returning:
  assumes "0 < cs" and "bulk cs queue = Returned calls"
  shows "length calls = (length (intents (bulk_popped cs queue)) + cs - 1) div cs \<and>
         map length calls =
           replicate (length (intents (bulk_popped cs queue)) div cs) (2 * cs) @
           (if length (intents (bulk_popped cs queue)) mod cs = 0 then []
            else [2 * (length (intents (bulk_popped cs queue)) mod cs)])"
proof -
  let ?M = "length (intents (bulk_popped cs queue))"
  obtain ex st' where r: "bulk_loop cs queue bulk_init = (ex, st')"
    by (cases "bulk_loop cs queue bulk_init")
  have ex: "ex = Break"
    using assms(2) r by (cases ex) (simp_all add: bulk_def)
  have calls: "calls = final_flush st'"
    using assms(2) r ex by (simp add: bulk_def)
  have "batched cs st'"
    using bulk_loop_batched[OF assms(1) r[unfolded ex] batched_init]
    by (simp add: bulk_init_def)
  then have b: "length (batch st') = 2 * (?M mod cs)"
    and o: "map length (ops st') = replicate (?M div cs) (2 * cs)"
    using r by (simp_all add: batched_def bulk_popped_def)
  have m: "map length calls = replicate (?M div cs) (2 * cs) @
           (if ?M mod cs = 0 then [] else [2 * (?M mod cs)])"
    using b o by (simp add: calls final_flush_def)
  have "length calls = length (map length calls)" by simp
  also have "\<dots> = ?M div cs + (if ?M mod cs = 0 then 0 else 1)"
    unfolding m by simp
  also have "\<dots> = (?M + cs - 1) div cs"
    using ceil_div[OF assms(1), of ?M] by simp
  finally show ?thesis using m by simp
qed

lemma returned_cases: "(case r of Returned x \<Rightarrow> True | _ \<Rightarrow> False) \<Longrightarrow> \<exists>x. r = Returned x"
  by (cases r) simp_all

text \<open>Five intents and a chunk size of two: three calls, of two, two and one intents.\<close>

lemma bulk_call_count_example:
  "(0::nat) < 2 \<and> (\<exists>calls. bulk 2 q5 = Returned calls \<and> length calls = 3 \<and>
      map length calls = [4, 4, 2])"
proof -
  have "case bulk 2 q5 of Returned x \<Rightarrow> True | _ \<Rightarrow> False"
    by code_simp
  then obtain calls where r: "bulk 2 q5 = Returned calls"
    using returned_cases by blast
  have M: "length (intents (bulk_popped 2 q5)) = 5"
    by code_simp
  have "(0::nat) < 2" by simp
  moreover have "(5 + 2 - 1) div 2 = (3::nat)" "5 div 2 = (2::nat)" "5 mod 2 = (1::nat)"
    by simp_all
  moreover have "replicate 2 (2 * 2) = [4, 4::nat]"
    by (simp add: numeral_2_eq_2)
  ultimately have "length calls = 3 \<and> map length calls = [4, 4, 2]"
    using bulk_call_count_returning[of 2 q5 calls] r M by simp
  with r show ?thesis by simp
qed


text \<open>
  Claim C8. A \<^verbatim>\<open>delete\<close> intent as \<^verbatim>\<open>get_docs\<close> builds it has no \<^verbatim>\<open>"doc"\<close> key, and
  the writer reads \<^verbatim>\<open>doc["doc"]\<close> for every intent that is not an update: the writer dies
  with \<^verbatim>\<open>KeyError\<close> on the first delete it pops, here with a chunk size of 500.
\<close>

theorem bulk_delete_crashes:
  "bulk 500 [delete_intent (PStr ''search-idx'') (PStr ''id2''), END_DOCS, END_DOWNLOADS]
     = Raised (KeyError (PStr ''doc''))"
  by code_simp

lemma bulk_delete_first:
  "bulk cs (delete_intent idx i # queue) = Raised (KeyError (PStr ''doc''))"
proof -
  have "delete_intent idx i \<noteq> END_DOCS" "delete_intent idx i \<noteq> END_DOWNLOADS"
    by (simp_all add: delete_intent_def END_DOCS_def END_DOWNLOADS_def)
  then have "bulk_loop cs (delete_intent idx i # queue) bulk_init
               = (Crash (KeyError (PStr ''doc'')), observe (delete_intent idx i) bulk_init)"
    by (intro bulk_loop_crash) (simp_all add: observe_simps bulk_init_def bulk_lines_delete)
  then show ?thesis by (simp add: bulk_def)
qed

text \<open>
  Claim C4. An upsert and a delete are two intents, and with a chunk size of 500 they
  are one call: the writer pops both, dies on the delete with \<^verbatim>\<open>KeyError\<close> and has
  dispatched no call at all.
\<close>

theorem bulk_call_count_delete:
  "bulk 500 mixed_queue = Raised (KeyError (PStr ''doc'')) \<and>
   length (intents (bulk_popped 500 mixed_queue)) = 2 \<and>
   ops (snd (bulk_loop 500 mixed_queue bulk_init)) = []"
  by code_simp


section \<open>Properties of the classification and the deletion sweep\<close>

lemma classify_None:
  assumes "classify c st item = (st', None)"
  shows "\<exists>i. map_of (fst item) (PStr ''_id'') = Some i \<and> hashable i \<and>
           seen_ids st' = List.insert i (seen_ids st) \<and>
           (stream st' = stream st \<or> (\<exists>d. stream st' = stream st @ [upsert_intent (index c) i d]))"
  using assms
  by (auto simp: classify_def dict_pop_def emit_def Let_def
           split: option.splits sum.splits if_splits prod.splits)

lemma classify_Some_stream:
  assumes "classify c st item = (st', Some e)"
  shows "stream st' = stream st"
  using assms
  by (auto simp: classify_def dict_pop_def emit_def Let_def
           split: option.splits sum.splits if_splits prod.splits)

lemma feed_loop_stream:
  "feed_loop c items st = (st', r) \<Longrightarrow>
   \<exists>ups. stream st' = stream st @ ups \<and> upserts_only (index c) ups"
proof (induction items arbitrary: st)
  case Nil
  then show ?case by (simp add: upserts_only_def)
next
  case (Cons item items)
  obtain st1 r1 where c1: "classify c st item = (st1, r1)"
    by (cases "classify c st item")
  show ?case
  proof (cases r1)
    case None
    with c1 Cons.prems have "feed_loop c items st1 = (st', r)" by simp
    from Cons.IH[OF this] obtain ups where
      u: "stream st' = stream st1 @ ups" "upserts_only (index c) ups" by blast
    from classify_None[OF c1[unfolded None]] consider
      "stream st1 = stream st" | d i where "stream st1 = stream st @ [upsert_intent (index c) i d]"
      by blast
    then show ?thesis
    proof cases
      case 1
      with u show ?thesis by auto
    next
      case 2
      with u have "stream st' = stream st @ (upsert_intent (index c) i d # ups)"
        "upserts_only (index c) (upsert_intent (index c) i d # ups)"
        by (auto simp: upserts_only_def)
      then show ?thesis by blast
    qed
  next
    case (Some e)
    with c1 Cons.prems have "st' = st1" by simp
    with classify_Some_stream[OF c1[unfolded Some]] show ?thesis
      by (simp add: upserts_only_def)
  qed
qed

lemma feed_loop_seen:
  "feed_loop c items st = (st', None) \<Longrightarrow>
   set (seen_ids st') = set (seen_ids st) \<union> set (feed_ids (items, fe))"
proof (induction items arbitrary: st)
  case Nil
  then show ?case by (simp add: feed_ids_def map_filter_simps)
next
  case (Cons item items)
  obtain st1 r1 where c1: "classify c st item = (st1, r1)"
    by (cases "classify c st item")
  with Cons.prems have r1: "r1 = None" by (cases r1) simp_all
  with c1 Cons.prems have "feed_loop c items st1 = (st', None)" by simp
  from Cons.IH[OF this] have ih: "set (seen_ids st') = set (seen_ids st1) \<union> set (feed_ids (items, fe))" .
  from classify_None[OF c1[unfolded r1]] obtain i where
    "map_of (fst item) (PStr ''_id'') = Some i" "seen_ids st1 = List.insert i (seen_ids st)"
    by blast
  then show ?case using ih by (auto simp: feed_ids_def map_filter_simps)
qed

lemma snapshot_ids_acc:
  "snapshot es acc = Inr (ids, ts) \<Longrightarrow> distinct (fst acc) \<Longrightarrow>
   distinct ids \<and> set ids = set (fst acc) \<union> set (snapshot_ids es)"
proof (induction es arbitrary: acc)
  case Nil
  then show ?case by (simp add: snapshot_ids_def map_filter_simps)
next
  case (Cons es_doc es)
  from Cons.prems(1) obtain i t where
    i: "map_of es_doc (PStr ''id'') = Some i" and
    rest: "snapshot es (List.insert i (fst acc), AList.update i t (snd acc)) = Inr (ids, ts)"
    by (auto simp: bind_exn_def split: option.splits if_splits sum.splits)
  have "distinct (fst (List.insert i (fst acc), AList.update i t (snd acc)))"
    using Cons.prems(2) by simp
  from Cons.IH[OF rest this] show ?case
    using i by (auto simp: snapshot_ids_def map_filter_simps)
qed

lemma is_delete_upsert [simp]: "\<not> is_delete (upsert_intent idx i d)"
  by (simp add: is_delete_def upsert_intent_def)

lemma is_delete_delete [simp]: "is_delete (delete_intent idx i)"
  by (simp add: is_delete_def delete_intent_def)

lemma is_delete_marker [simp]: "\<not> is_delete END_DOCS" "\<not> is_delete END_DOWNLOADS"
  by (simp_all add: is_delete_def END_DOCS_def END_DOWNLOADS_def)

lemma delete_ids_append: "delete_ids (xs @ ys) = delete_ids xs @ delete_ids ys"
  by (simp add: delete_ids_def map_filter_def)

lemma delete_ids_upserts: "upserts_only idx ups \<Longrightarrow> delete_ids ups = []"
  by (induction ups) (auto simp: upserts_only_def delete_ids_def map_filter_simps)

lemma delete_ids_deletes: "delete_ids (map (delete_intent idx) ds) = ds"
  by (induction ds) (auto simp: delete_ids_def map_filter_simps delete_intent_def is_delete_def)

lemma delete_ids_marker: "delete_ids [END_DOCS] = []"
  by (simp add: delete_ids_def map_filter_simps)

lemma get_docs_Returned:
  assumes "get_docs c generator = (st, Returned ())"
  shows "\<exists>st0 ups. feed_loop c (fst generator) docs_init = (st0, None) \<and>
           stream st0 = ups \<and> upserts_only (index c) ups \<and>
           stream st = ups @ sweep c st0 @ [END_DOCS]"
proof -
  obtain st0 r0 where f: "feed_loop c (fst generator) docs_init = (st0, r0)"
    by (cases "feed_loop c (fst generator) docs_init")
  from assms f have r0: "r0 = None"
    by (cases r0) (simp_all add: get_docs_def)
  from assms f r0 have st: "st = st0\<lparr>stream := stream st0 @ sweep c st0 @ [END_DOCS]\<rparr>"
    by (cases "snd generator") (simp_all add: get_docs_def)
  from feed_loop_stream[OF f] obtain ups where
    "stream st0 = stream docs_init @ ups" "upserts_only (index c) ups" by blast
  then show ?thesis using f r0 st by (simp add: docs_init_def)
qed

text \<open>
  Claim C1. When the feed is exhausted and \<^verbatim>\<open>get_docs\<close> returns, the deletes it has put
  are one for each id of the snapshot that the feed did not yield: their ids are
  pairwise different, as a set they are \<open>S - F\<close>, and on the queue they stand after
  everything the loop over the feed has put and before \<^verbatim>\<open>END_DOCS\<close>.
\<close>

theorem get_docs_deletes:
  assumes "snapshot es_docs ([], []) = Inr (ids, ts)"
      and "get_docs \<lparr>index = idx, existing_ids = ids, existing_timestamps = ts, iso_utc = clock\<rparr>
             generator = (st, Returned ())"
  shows "distinct (delete_ids (stream st)) \<and>
         set (delete_ids (stream st)) = set (snapshot_ids es_docs) - set (feed_ids generator) \<and>
         (\<exists>ups. stream st = ups @ map (delete_intent idx) (delete_ids (stream st)) @ [END_DOCS] \<and>
                (\<forall>u\<in>set ups. \<not> is_delete u))"
proof -
  let ?c = "\<lparr>index = idx, existing_ids = ids, existing_timestamps = ts, iso_utc = clock\<rparr>"
  from snapshot_ids_acc[OF assms(1)] have ids: "distinct ids" "set ids = set (snapshot_ids es_docs)"
    by simp_all
  from get_docs_Returned[OF assms(2)] obtain st0 ups where
    f: "feed_loop ?c (fst generator) docs_init = (st0, None)" and
    u: "upserts_only idx ups" and
    s: "stream st = ups @ sweep ?c st0 @ [END_DOCS]"
    by auto
  from feed_loop_seen[OF f, of "snd generator"] have seen: "set (seen_ids st0) = set (feed_ids generator)"
    by (simp add: docs_init_def)
  let ?dels = "filter (\<lambda>doc_id. doc_id \<notin> set (seen_ids st0)) ids"
  have sw: "sweep ?c st0 = map (delete_intent idx) ?dels"
    by (simp add: sweep_def)
  have d: "delete_ids (stream st) = ?dels"
    by (simp add: s sw delete_ids_append delete_ids_upserts[OF u] delete_ids_deletes
        delete_ids_marker)
  have "\<forall>x\<in>set ups. \<not> is_delete x"
    using u by (auto simp: upserts_only_def)
  then have "\<exists>ups. stream st = ups @ map (delete_intent idx) (delete_ids (stream st)) @ [END_DOCS] \<and>
                (\<forall>x\<in>set ups. \<not> is_delete x)"
    using s sw d by auto
  moreover have "distinct (delete_ids (stream st))"
    using ids(1) d by simp
  moreover have "set (delete_ids (stream st)) = set (snapshot_ids es_docs) - set (feed_ids generator)"
    using ids(2) seen d by auto
  ultimately show ?thesis by blast
qed


text \<open>
  The same document yielded with \<^verbatim>\<open>None\<close> in place of an enrichment: the call at line 164
  is a call of \<^verbatim>\<open>None\<close>, and \<^verbatim>\<open>get_docs\<close> ends with \<^verbatim>\<open>TypeError\<close>.
\<close>

lemma classify_unchanged_no_enrichment:
  assumes "map_of doc (PStr ''_id'') = Some doc_id" and "hashable doc_id"
      and "map_of doc (PStr ''timestamp'') = Some ts"
      and "map_of (existing_timestamps c) doc_id = Some ts'" and "py_eq ts' ts"
  shows "classify c st (doc, None) =
           (st\<lparr>seen_ids := List.insert doc_id (seen_ids st)\<rparr>, Some TypeError)"
proof -
  have "map_of (AList.update (PStr ''id'') doc_id (AList.delete (PStr ''_id'') doc)) (PStr ''timestamp'')
          = Some ts"
    using assms(3) by (simp add: update_conv' delete_conv')
  then show ?thesis
    using assms by (simp add: classify_def dict_pop_def dict_get_def Let_def)
qed

lemma scenario_snapshot:
  "snapshot scenario_index ([], []) =
     Inr ([PStr ''id2'', PStr ''id1''], [(PStr ''id1'', PStr ''t0''), (PStr ''id2'', PStr ''t0'')])"
  by code_simp

lemma scenario_returns: "snd (get_docs scenario_ctx scenario_feed) = Returned ()"
  by code_simp

lemma scenario_deletes: "delete_ids (stream (fst (get_docs scenario_ctx scenario_feed))) = [PStr ''id2'']"
  by code_simp

text \<open>The scenario: \<open>S = {id1, id2}\<close>, \<open>F = {id1, id3}\<close>, one delete, for \<^verbatim>\<open>id2\<close>.\<close>

theorem get_docs_deletes_witness:
  "snapshot scenario_index ([], []) = Inr (existing_ids scenario_ctx, existing_timestamps scenario_ctx) \<and>
   snd (get_docs scenario_ctx scenario_feed) = Returned () \<and>
   set (snapshot_ids scenario_index) - set (feed_ids scenario_feed) = {PStr ''id2''} \<and>
   delete_ids (stream (fst (get_docs scenario_ctx scenario_feed))) = [PStr ''id2'']"
proof -
  have s: "snapshot scenario_index ([], []) =
             Inr ([PStr ''id2'', PStr ''id1''], [(PStr ''id1'', PStr ''t0''), (PStr ''id2'', PStr ''t0'')])"
    by code_simp
  have r: "get_docs \<lparr>index = PStr ''search-idx'', existing_ids = [PStr ''id2'', PStr ''id1''],
                    existing_timestamps = [(PStr ''id1'', PStr ''t0''), (PStr ''id2'', PStr ''t0'')],
                    iso_utc = (\<lambda>n. PStr ''now'')\<rparr> scenario_feed
            = (fst (get_docs scenario_ctx scenario_feed), Returned ())"
    using scenario_returns by (simp add: scenario_ctx_def prod_eq_iff)
  have d: "delete_ids (stream (fst (get_docs scenario_ctx scenario_feed))) = [PStr ''id2'']"
    by code_simp
  from get_docs_deletes[OF s r] have
    "set (delete_ids (stream (fst (get_docs scenario_ctx scenario_feed))))
       = set (snapshot_ids scenario_index) - set (feed_ids scenario_feed)"
    by blast
  with d have "set (snapshot_ids scenario_index) - set (feed_ids scenario_feed) = {PStr ''id2''}"
    by simp
  with s d scenario_returns show ?thesis
    by (simp add: scenario_ctx_def)
qed


section \<open>Properties of the drain and of the pass\<close>

lemma interleave_set: "set (interleave bs xs ys) = set xs \<union> set ys"
  by (induction bs xs ys rule: interleave.induct) auto

lemma bulk_needs_END_DOCS:
  assumes "END_DOCS \<notin> set q"
  shows "\<nexists>calls. bulk cs q = Returned calls"
proof -
  from bulk_popped_prefix[of q cs] obtain rest where "q = bulk_popped cs q @ rest" ..
  then have "set (bulk_popped cs q) \<subseteq> set q"
    by (metis set_append sup_ge1)
  with assms have "END_DOCS \<notin> set (bulk_popped cs q)" by blast
  then show ?thesis
    using bulk_Returned_iff[of cs q] bulk_loop_init_track[of cs q] by simp
qed

lemma bulk_needs_END_DOWNLOADS:
  assumes "END_DOWNLOADS \<notin> set q"
  shows "\<nexists>calls. bulk cs q = Returned calls"
proof -
  from bulk_popped_prefix[of q cs] obtain rest where "q = bulk_popped cs q @ rest" ..
  then have "set (bulk_popped cs q) \<subseteq> set q"
    by (metis set_append sup_ge1)
  with assms have "END_DOWNLOADS \<notin> set (bulk_popped cs q)" by blast
  then show ?thesis
    using bulk_Returned_iff[of cs q] bulk_loop_init_track[of cs q] by simp
qed

lemma upsert_not_marker [simp]:
  "upsert_intent idx i d \<noteq> END_DOCS" "upsert_intent idx i d \<noteq> END_DOWNLOADS"
  "END_DOCS \<noteq> upsert_intent idx i d" "END_DOWNLOADS \<noteq> upsert_intent idx i d"
  by (simp_all add: upsert_intent_def END_DOCS_def END_DOWNLOADS_def)

lemma markers_differ [simp]: "END_DOCS \<noteq> END_DOWNLOADS" "END_DOWNLOADS \<noteq> END_DOCS"
  by (simp_all add: END_DOCS_def END_DOWNLOADS_def)

lemma get_attachments_puts:
  "get_attachments idx ds = (puts, ds', r) \<Longrightarrow>
   END_DOCS \<notin> set puts \<and> (\<forall>x\<in>set puts. \<not> is_delete x) \<and>
   (END_DOWNLOADS \<in> set puts) = (r = Returned ()) \<and> r \<noteq> Pending \<and>
   map strip_id ds' = map strip_id ds"
proof (induction ds arbitrary: puts ds' r)
  case Nil
  then show ?case by auto
next
  case (Cons t ds)
  show ?case
  proof (cases t)
    case (Inl e)
    with Cons.prems show ?thesis by auto
  next
    case (Inr res)
    show ?thesis
    proof (cases res)
      case None
      obtain p1 d1 r1 where g: "get_attachments idx ds = (p1, d1, r1)"
        by (cases "get_attachments idx ds") auto
      with Cons.prems Inr None have "puts = p1" "ds' = t # d1" "r = r1" by auto
      with Cons.IH[OF g] show ?thesis by simp
    next
      case (Some data)
      show ?thesis
      proof (cases "map_of data (PStr ''_id'')")
        case None
        with Cons.prems Inr Some show ?thesis by (auto simp: dict_pop_def)
      next
        case (Some i)
        obtain p1 d1 r1 where g: "get_attachments idx ds = (p1, d1, r1)"
          by (cases "get_attachments idx ds") auto
        with Cons.prems Inr \<open>res = Some data\<close> Some have
          "puts = upsert_intent idx i (AList.delete (PStr ''_id'') data) # p1"
          "ds' = Inr (Some (AList.delete (PStr ''_id'') data)) # d1" "r = r1"
          by (auto simp: dict_pop_def)
        with Cons.IH[OF g] Inr \<open>res = Some data\<close> show ?thesis
          by (simp add: strip_id_def delete_idem)
      qed
    qed
  qed
qed

lemma get_docs_Raised:
  assumes "get_docs c generator = (st, Raised e)"
  shows "upserts_only (index c) (stream st)"
proof -
  obtain st0 r0 where f: "feed_loop c (fst generator) docs_init = (st0, r0)"
    by (cases "feed_loop c (fst generator) docs_init")
  from assms f have "st = st0"
    by (cases r0; cases "snd generator") (simp_all add: get_docs_def)
  moreover from feed_loop_stream[OF f] have "upserts_only (index c) (stream st0)"
    by (auto simp: docs_init_def)
  ultimately show ?thesis by simp
qed

lemma get_docs_Fails:
  assumes "get_docs c (items, Fails e) = (st, r)"
  shows "\<exists>e'. r = Raised e'"
proof -
  obtain st0 r0 where f: "feed_loop c items docs_init = (st0, r0)"
    by (cases "feed_loop c items docs_init")
  with assms show ?thesis
    by (cases r0) (auto simp: get_docs_def)
qed

lemma upserts_only_no_marker:
  "upserts_only idx xs \<Longrightarrow> END_DOCS \<notin> set xs \<and> (\<forall>x\<in>set xs. \<not> is_delete x)"
  by (auto simp: upserts_only_def)

lemma run_pass_fields:
  "docs (run_pass self c g sched) = fst (get_docs c g)"
  "docs_outcome (run_pass self c g sched) = snd (get_docs c g)"
  "att_puts (run_pass self c g sched) =
     fst (get_attachments (index c)
            (take (length (downloads self) + min (reached sched) (length (scheduled (fst (get_docs c g)))))
                  (downloads self @ scheduled (fst (get_docs c g)))))"
  "att_outcome (run_pass self c g sched) =
     snd (snd (get_attachments (index c)
            (take (length (downloads self) + min (reached sched) (length (scheduled (fst (get_docs c g)))))
                  (downloads self @ scheduled (fst (get_docs c g))))))"
  "pass_queue (run_pass self c g sched) =
     interleave (order sched) (stream (docs (run_pass self c g sched))) (att_puts (run_pass self c g sched))"
  "bulk_outcome (run_pass self c g sched) = bulk (chunk_size self) (pass_queue (run_pass self c g sched))"
  by (simp_all add: run_pass_def Let_def split: prod.splits)

lemma gather_Raised:
  "Raised e \<in> set tasks \<Longrightarrow> \<exists>es. gather tasks = SomeRaised es \<and> e \<in> set es"
proof -
  assume a: "Raised e \<in> set tasks"
  then have "e \<in> set (concat (map raised tasks))"
    by (induction tasks) auto
  then have "concat (map raised tasks) \<noteq> []"
    by (metis empty_iff list.set(1))
  with \<open>e \<in> set (concat (map raised tasks))\<close> show ?thesis
    by (simp add: gather_def Let_def)
qed

text \<open>
  Claim C6, as the code has it. In a pass whose generator raises, \<^verbatim>\<open>get_docs\<close> ends with
  an exception, its own or the generator's, without putting \<^verbatim>\<open>END_DOCS\<close> or any delete:
  \<^verbatim>\<open>END_DOCS\<close> is never on the queue, the writer never returns, and \<^verbatim>\<open>async_bulk\<close>
  fails with the exception of a failed task, that of \<^verbatim>\<open>get_docs\<close> among them.
\<close>

theorem feed_failure_pass:
  assumes "snapshot es_docs ([], []) = Inr (ids, ts)"
      and "p = run_pass self \<lparr>index = idx, existing_ids = ids, existing_timestamps = ts,
                               iso_utc = clock\<rparr> (items, Fails e) sched"
  shows "(\<exists>e'. docs_outcome p = Raised e' \<and>
               (\<exists>es. fst (async_bulk self idx es_docs (items, Fails e) clock sched) = Failed es \<and>
                     e' \<in> set es)) \<and>
         END_DOCS \<notin> set (pass_queue p) \<and>
         (\<forall>x\<in>set (pass_queue p). \<not> is_delete x) \<and>
         (\<nexists>calls. bulk_outcome p = Returned calls)"
proof -
  let ?c = "\<lparr>index = idx, existing_ids = ids, existing_timestamps = ts, iso_utc = clock\<rparr>"
  obtain st r where g: "get_docs ?c (items, Fails e) = (st, r)"
    by (cases "get_docs ?c (items, Fails e)")
  from get_docs_Fails[OF g] obtain e' where r: "r = Raised e'" ..
  have dout: "docs_outcome p = Raised e'"
    by (simp add: assms(2) run_pass_fields g r)
  have dst: "docs p = st"
    by (simp add: assms(2) run_pass_fields g)
  from get_docs_Raised[OF g[unfolded r]] have "upserts_only idx (stream st)" by simp
  from upserts_only_no_marker[OF this] have
    s1: "END_DOCS \<notin> set (stream st)" and s2: "\<forall>x\<in>set (stream st). \<not> is_delete x"
    by simp_all
  obtain ap ad ar where ga: "get_attachments (index ?c)
      (take (length (downloads self) + min (reached sched) (length (scheduled (fst (get_docs ?c (items, Fails e))))))
            (downloads self @ scheduled (fst (get_docs ?c (items, Fails e))))) = (ap, ad, ar)"
    using prod_cases3 by blast
  have ap: "att_puts p = ap"
    unfolding assms(2) run_pass_fields ga by simp
  from get_attachments_puts[OF ga] have
    a1: "END_DOCS \<notin> set ap" and a2: "\<forall>x\<in>set ap. \<not> is_delete x"
    by simp_all
  have q: "set (pass_queue p) = set (stream st) \<union> set ap"
    using dst ap by (simp add: assms(2) run_pass_fields(5) interleave_set)
  have nd: "END_DOCS \<notin> set (pass_queue p)"
    using q s1 a1 by simp
  have ndel: "\<forall>x\<in>set (pass_queue p). \<not> is_delete x"
    using q s2 a2 by auto
  have nb: "\<nexists>calls. bulk_outcome p = Returned calls"
    using bulk_needs_END_DOCS[OF nd] by (simp add: assms(2) run_pass_fields(6))
  have "Raised e' \<in> set [docs_outcome p, att_outcome p, forget (bulk_outcome p)]"
    using dout by simp
  from gather_Raised[OF this] obtain es where
    es: "gather [docs_outcome p, att_outcome p, forget (bulk_outcome p)] = SomeRaised es" "e' \<in> set es"
    by blast
  have "fst (async_bulk self idx es_docs (items, Fails e) clock sched) = Failed es"
    using es(1) by (simp add: async_bulk_def assms(1) assms(2)[symmetric] Let_def)
  with dout es(2) nd ndel nb show ?thesis by blast
qed

text \<open>
  Claim C6 as stated fails: the feed yields one document and raises; no \<^verbatim>\<open>END_DOCS\<close> is
  put and the writer waits for ever, the document's upserts still in its batch.
\<close>

theorem feed_failure_counterexample:
  "snd (get_docs empty_ctx failing_feed) = Raised (Exception ''I fail while syncing'') \<and>
   END_DOCS \<notin> set (stream (fst (get_docs empty_ctx failing_feed))) \<and>
   bulk_outcome (run_pass new_server empty_ctx failing_feed docs_first) = Pending"
  by code_simp

text \<open>The same pass, through the theorem.\<close>

theorem feed_failure_pass_witness:
  "snapshot [] ([], []) = Inr ([], []) \<and>
   END_DOCS \<notin> set (pass_queue (run_pass new_server empty_ctx failing_feed docs_first)) \<and>
   (\<nexists>calls. bulk_outcome (run_pass new_server empty_ctx failing_feed docs_first) = Returned calls)"
  using feed_failure_pass[of "[]" "[]" "[]" "run_pass new_server empty_ctx failing_feed docs_first"
      new_server "PStr ''search-idx''" "\<lambda>n. PStr ''now''"
      "[([(PStr ''_id'', PStr ''1'')], Some (fake_dl (PStr ''1'')))]"
      "Exception ''I fail while syncing''" docs_first]
  by (simp add: empty_ctx_def failing_feed_def)

lemma get_attachments_None:
  "get_attachments idx (Inr None # ds) =
     (case get_attachments idx ds of (puts, ds', r) \<Rightarrow> (puts, Inr None # ds', r))"
  by simp

lemma get_attachments_prefix:
  "get_attachments idx (pre @ Inl e # post) = (puts, ds', r) \<Longrightarrow>
   (\<exists>e'. r = Raised e') \<and> END_DOWNLOADS \<notin> set puts \<and> length puts \<le> length pre \<and>
   drop (length pre) ds' = Inl e # post"
proof (induction pre arbitrary: puts ds' r)
  case Nil
  then show ?case by auto
next
  case (Cons t pre)
  show ?case
  proof (cases t)
    case (Inl e0)
    with Cons.prems have "puts = []" "r = Raised e0" "ds' = t # pre @ Inl e # post" by auto
    then show ?thesis by simp
  next
    case (Inr res)
    show ?thesis
    proof (cases res)
      case None
      obtain p1 d1 r1 where g: "get_attachments idx (pre @ Inl e # post) = (p1, d1, r1)"
        using prod_cases3 by blast
      with Cons.prems Inr None have "puts = p1" "ds' = t # d1" "r = r1" by auto
      with Cons.IH[OF g] show ?thesis by simp
    next
      case (Some data)
      show ?thesis
      proof (cases "map_of data (PStr ''_id'')")
        case None
        with Cons.prems Inr Some have "puts = []" "r = Raised (KeyError (PStr ''_id''))"
          "ds' = t # pre @ Inl e # post" by (auto simp: dict_pop_def)
        then show ?thesis by simp
      next
        case (Some i)
        obtain p1 d1 r1 where g: "get_attachments idx (pre @ Inl e # post) = (p1, d1, r1)"
          using prod_cases3 by blast
        with Cons.prems Inr \<open>res = Some data\<close> Some have
          "puts = upsert_intent idx i (AList.delete (PStr ''_id'') data) # p1"
          "ds' = Inr (Some (AList.delete (PStr ''_id'') data)) # d1" "r = r1"
          by (auto simp: dict_pop_def)
        with Cons.IH[OF g] show ?thesis by simp
      qed
    qed
  qed
qed

text \<open>
  Claim C7, as the code has it. A download that raises when it is awaited ends the drain
  with an exception: at most the downloads before it have put anything, the failed
  download and those after it are left as they were, and \<^verbatim>\<open>END_DOWNLOADS\<close> is not
  put. A download that answers \<^verbatim>\<open>None\<close> is skipped and the drain goes on.
\<close>

theorem download_failure_ends_drain:
  assumes "get_attachments idx (pre @ Inl e # post) = (puts, ds', r)"
  shows "(\<exists>e'. r = Raised e') \<and> END_DOWNLOADS \<notin> set puts \<and> length puts \<le> length pre \<and>
         drop (length pre) ds' = Inl e # post \<and>
         (\<forall>ds. fst (get_attachments idx (Inr None # ds)) = fst (get_attachments idx ds))"
proof -
  have "\<forall>ds. fst (get_attachments idx (Inr None # ds)) = fst (get_attachments idx ds)"
    by (simp add: split_beta)
  with get_attachments_prefix[OF assms] show ?thesis by blast
qed

text \<open>
  Claim C7 as stated fails: the exception of the second download is not caught, the third
  download is never drained, and nothing is put at all.
\<close>

theorem download_failure_counterexample:
  "get_attachments (PStr ''search-idx'') failing_downloads =
     ([], failing_downloads, Raised (Exception ''download failed''))"
  by code_simp

text \<open>The same downloads, through the theorem.\<close>

theorem download_failure_ends_drain_witness:
  "get_attachments (PStr ''search-idx'') failing_downloads =
     ([], failing_downloads, Raised (Exception ''download failed'')) \<and>
   END_DOWNLOADS \<notin> set ([]::pyval list) \<and>
   drop 1 failing_downloads =
     [Inl (Exception ''download failed''),
      Inr (Some [(PStr ''_id'', PStr ''2''), (PStr ''text'', PStr ''xx'')])]"
proof -
  have g: "get_attachments (PStr ''search-idx'') failing_downloads =
             ([], failing_downloads, Raised (Exception ''download failed''))"
    by code_simp
  have f: "failing_downloads = [Inr None] @ Inl (Exception ''download failed'')
             # [Inr (Some [(PStr ''_id'', PStr ''2''), (PStr ''text'', PStr ''xx'')])]"
    by (simp add: failing_downloads_def)
  from download_failure_ends_drain[OF g[unfolded f]] g show ?thesis
    unfolding f by simp
qed

lemma async_bulk_result_empty:
  "fst (async_bulk self idx es_docs generator clock sched) = Completed res \<Longrightarrow> res = []"
  by (auto simp: async_bulk_def Let_def split: sum.splits gathered.splits prod.splits)

text \<open>
  Claim C5. The first pass writes two upserts in one bulk call, the document and its
  enrichment, and \<^verbatim>\<open>async_bulk\<close> returns the empty dictionary: line 225 rebinds
  \<^verbatim>\<open>res\<close> to \<^verbatim>\<open>{}\<close>, and nothing has counted into it before.
\<close>

theorem async_bulk_returns_nothing:
  "fst first_pass = Completed [] \<and>
   bulk_outcome (run_pass new_server empty_ctx fake_feed docs_first) =
     Returned [[PDict [(PStr ''update'', PDict [(PStr ''_index'', PStr ''search-idx''), (PStr ''_id'', PStr ''1'')])],
                PDict [(PStr ''doc'', PDict [(PStr ''id'', PStr ''1''), (PStr ''timestamp'', PStr ''now'')]),
                       (PStr ''doc_as_upsert'', PBool True)],
                PDict [(PStr ''update'', PDict [(PStr ''_index'', PStr ''search-idx''), (PStr ''_id'', PStr ''1'')])],
                PDict [(PStr ''doc'', PDict [(PStr ''_timestamp'', PStr ''now''), (PStr ''text'', PStr ''xx'')]),
                       (PStr ''doc_as_upsert'', PBool True)]]]"
  by code_simp

lemma redrain:
  "get_attachments idx ds = (puts, ds', Returned ()) \<Longrightarrow>
   get_attachments idx2 (ds' @ later) =
     (if \<forall>t\<in>set ds. t = Inr None
      then (case get_attachments idx2 later of (p, m, r) \<Rightarrow> (p, ds' @ m, r))
      else ([], ds' @ later, Raised (KeyError (PStr ''_id''))))"
proof (induction ds arbitrary: puts ds')
  case Nil
  then show ?case by (auto split: prod.splits)
next
  case (Cons t ds)
  show ?case
  proof (cases t)
    case (Inl e0)
    with Cons.prems show ?thesis by auto
  next
    case (Inr res)
    show ?thesis
    proof (cases res)
      case None
      obtain p1 d1 r1 where g: "get_attachments idx ds = (p1, d1, r1)"
        using prod_cases3 by blast
      with Cons.prems Inr None have e: "puts = p1" "ds' = Inr None # d1" "r1 = Returned ()" by auto
      from Cons.IH[OF g[unfolded e(3)]] show ?thesis
        using e Inr None by (auto split: prod.splits)
    next
      case (Some data)
      show ?thesis
      proof (cases "map_of data (PStr ''_id'')")
        case None
        with Cons.prems Inr Some show ?thesis by (auto simp: dict_pop_def)
      next
        case (Some i)
        obtain p1 d1 r1 where g: "get_attachments idx ds = (p1, d1, r1)"
          using prod_cases3 by blast
        with Cons.prems Inr \<open>res = Some data\<close> Some have
          e: "ds' = Inr (Some (AList.delete (PStr ''_id'') data)) # d1"
          by (auto simp: dict_pop_def)
        have "map_of (AList.delete (PStr ''_id'') data) (PStr ''_id'') = None"
          by (simp add: delete_conv')
        then show ?thesis
          using e Inr \<open>res = Some data\<close> by (simp add: dict_pop_def)
      qed
    qed
  qed
qed

lemma run_pass_downloads:
  "map strip_id (downloads (server_after (run_pass self c g sched))) =
   map strip_id (downloads self @ scheduled (docs (run_pass self c g sched)))"
proof -
  let ?all = "downloads self @ scheduled (fst (get_docs c g))"
  let ?n = "length (downloads self) + min (reached sched) (length (scheduled (fst (get_docs c g))))"
  obtain ap ad ar where ga: "get_attachments (index c) (take ?n ?all) = (ap, ad, ar)"
    using prod_cases3 by blast
  from get_attachments_puts[OF ga] have "map strip_id ad = map strip_id (take ?n ?all)"
    by simp
  then have "map strip_id (ad @ drop ?n ?all) = map strip_id ?all"
    by (metis append_take_drop_id map_append)
  moreover have "downloads (server_after (run_pass self c g sched)) =
      fst (snd (get_attachments (index c) (take ?n ?all))) @ drop ?n ?all"
    by (simp add: run_pass_def Let_def split_beta)
  then have "downloads (server_after (run_pass self c g sched)) = ad @ drop ?n ?all"
    by (simp only: ga fst_conv snd_conv)
  ultimately show ?thesis
    by (simp add: run_pass_fields)
qed

text \<open>
  Claim C10, as the code has it. After a pass \<^verbatim>\<open>self._downloads\<close> holds every task it
  held before and every task scheduled in the pass, the drained results without their
  \<^verbatim>\<open>"_id"\<close>. A later drain that comes to downloads an earlier drain went through skips
  them when all of them answered \<^verbatim>\<open>None\<close>, and otherwise raises \<^verbatim>\<open>KeyError\<close> at the
  first result that was drained before, having put nothing.
\<close>

theorem downloads_kept_and_redrain:
  assumes "get_attachments idx ds = (puts, ds', Returned ())"
  shows "map strip_id (downloads (server_after (run_pass self c g sched))) =
           map strip_id (downloads self @ scheduled (docs (run_pass self c g sched))) \<and>
         get_attachments idx2 (ds' @ later) =
           (if \<forall>t\<in>set ds. t = Inr None
            then (case get_attachments idx2 later of (p, m, r) \<Rightarrow> (p, ds' @ m, r))
            else ([], ds' @ later, Raised (KeyError (PStr ''_id''))))"
  using run_pass_downloads[of self c g sched] redrain[OF assms, of idx2 later] by simp

text \<open>
  Claim C10 as stated fails: the second pass awaits the download of the first again, and
  \<^verbatim>\<open>data.pop("_id")\<close> raises on the result the first pass has drained; the drain of the
  second pass puts nothing.
\<close>

theorem redrain_counterexample:
  "fst first_pass = Completed [] \<and> length (downloads (snd first_pass)) = 1 \<and>
   fst second_pass = Failed [KeyError (PStr ''_id'')] \<and>
   att_puts (run_pass (snd first_pass) second_ctx fake_feed docs_first) = [] \<and>
   att_outcome (run_pass (snd first_pass) second_ctx fake_feed docs_first)
     = Raised (KeyError (PStr ''_id''))"
  by code_simp

text \<open>One drained result, met again by a second drain.\<close>

theorem downloads_kept_and_redrain_witness:
  "get_attachments (PStr ''search-idx'') [Inr (Some [(PStr ''_id'', PStr ''1''), (PStr ''text'', PStr ''xx'')])]
     = ([upsert_intent (PStr ''search-idx'') (PStr ''1'') [(PStr ''text'', PStr ''xx'')], END_DOWNLOADS],
        [Inr (Some [(PStr ''text'', PStr ''xx'')])], Returned ()) \<and>
   get_attachments (PStr ''search-idx'') ([Inr (Some [(PStr ''text'', PStr ''xx'')])] @ [])
     = ([], [Inr (Some [(PStr ''text'', PStr ''xx'')])] @ [], Raised (KeyError (PStr ''_id'')))"
proof -
  have g: "get_attachments (PStr ''search-idx'')
             [Inr (Some [(PStr ''_id'', PStr ''1''), (PStr ''text'', PStr ''xx'')])]
     = ([upsert_intent (PStr ''search-idx'') (PStr ''1'') [(PStr ''text'', PStr ''xx'')], END_DOWNLOADS],
        [Inr (Some [(PStr ''text'', PStr ''xx'')])], Returned ())"
    by code_simp
  from downloads_kept_and_redrain[OF g, of new_server empty_ctx fake_feed docs_first
      "PStr ''search-idx''" "[]"] g
  show ?thesis by simp
qed

section \<open>Properties of the merge of mappings\<close>

lemma map_of_concat_map:
  "map_of (concat (map (\<lambda>k. case h k of None \<Rightarrow> [] | Some v \<Rightarrow> [(k, g k v)]) ks)) k =
     (if k \<in> set ks then (case h k of None \<Rightarrow> None | Some v \<Rightarrow> Some (g k v)) else None)"
  by (induction ks) (auto split: option.splits)

lemma chain_keys_iff: "k \<in> set (chain_keys maps) \<longleftrightarrow> chain_get maps k \<noteq> None"
proof -
  have "chain_get maps k \<noteq> None \<longleftrightarrow> (\<exists>m\<in>set maps. k \<in> fst ` set m)"
    by (induction maps) (force simp: map_of_eq_None_iff dest: map_of_SomeD split: option.splits)+
  then show ?thesis
    by (auto simp: chain_keys_def)
qed

lemma to_dict_lookup:
  "map_of (to_dict maps) k =
     (case chain_get maps k of
        None \<Rightarrow> None
      | Some v \<Rightarrow> Some (if is_mapping v then PDict (to_dict (deep_values maps k)) else v))"
proof -
  have "map_of (to_dict maps) k =
     (if k \<in> set (chain_keys maps)
      then (case chain_get maps k of None \<Rightarrow> None
            | Some v \<Rightarrow> Some (if is_mapping v then PDict (to_dict (deep_values maps k)) else v))
      else None)"
    by (subst to_dict.simps) (rule map_of_concat_map)
  then show ?thesis
    by (simp add: chain_keys_iff split: option.splits)
qed

lemma at_path_leaf: "\<not> is_mapping x \<Longrightarrow> at_path x p = (if p = [] then Some x else None)"
  by (cases x; cases p) simp_all

lemma open_path_leaf: "\<not> is_mapping x \<Longrightarrow> \<not> open_path x p"
  by (cases x; cases p) simp_all

lemma leaf_single: "leaf_at (PDict (to_dict [m])) p v = leaf_at (PDict m) p v"
proof (induction p arbitrary: m)
  case Nil
  then show ?case by (auto simp: leaf_at_def)
next
  case (Cons k ks)
  show ?case
  proof (cases "map_of m k")
    case None
    then show ?thesis by (simp add: leaf_at_def to_dict_lookup)
  next
    case (Some x)
    show ?thesis
    proof (cases x)
      case (PDict d)
      with Some Cons[of d] show ?thesis by (simp add: leaf_at_def to_dict_lookup)
    qed (use Some in \<open>simp_all add: leaf_at_def to_dict_lookup\<close>)
  qed
qed

lemma leaf_pair:
  "leaf_at (PDict (to_dict [e, n])) p v =
     (leaf_at (PDict e) p v \<or> (open_path (PDict e) p \<and> leaf_at (PDict n) p v))"
proof (induction p arbitrary: e n)
  case Nil
  then show ?case by (auto simp: leaf_at_def)
next
  case (Cons k ks)
  show ?case
  proof (cases "map_of e k")
    case None
    show ?thesis
    proof (cases "map_of n k")
      case None
      with \<open>map_of e k = None\<close> show ?thesis by (simp add: leaf_at_def to_dict_lookup)
    next
      case (Some y)
      show ?thesis
      proof (cases y)
        case (PDict d)
        with Some \<open>map_of e k = None\<close> leaf_single[of d ks v] show ?thesis
          by (simp add: leaf_at_def to_dict_lookup)
      qed (use Some \<open>map_of e k = None\<close> in \<open>simp_all add: leaf_at_def to_dict_lookup\<close>)
    qed
  next
    case (Some x)
    show ?thesis
    proof (cases x)
      case (PDict d)
      show ?thesis
      proof (cases "map_of n k")
        case None
        with Some PDict leaf_single[of d ks v] show ?thesis
          by (simp add: leaf_at_def to_dict_lookup)
      next
        case Some2: (Some y)
        show ?thesis
        proof (cases y)
          case PDict2: (PDict d2)
          with Some PDict Some2 Cons[of d d2] show ?thesis
            by (simp add: leaf_at_def to_dict_lookup)
        qed (use Some PDict Some2 leaf_single[of d ks v] in
              \<open>auto simp: leaf_at_def to_dict_lookup at_path_leaf\<close>)
      qed
    qed (use Some in \<open>auto simp: leaf_at_def to_dict_lookup at_path_leaf open_path_leaf\<close>)
  qed
qed

lemma path_kept:
  "at_path (PDict e) p = Some x \<Longrightarrow>
   \<exists>y. at_path (PDict (to_dict (e # ns))) p = Some y \<and> is_mapping y = is_mapping x \<and>
       (\<not> is_mapping x \<longrightarrow> y = x)"
proof (induction p arbitrary: e ns)
  case Nil
  then show ?case by auto
next
  case (Cons k ks)
  from Cons.prems obtain x0 where x0: "map_of e k = Some x0" "at_path x0 ks = Some x"
    by (auto split: option.splits)
  show ?case
  proof (cases x0)
    case (PDict d)
    from Cons.IH[of d, OF x0(2)[unfolded PDict], of "deep_values ns k"] x0(1) PDict
    show ?thesis by (simp add: to_dict_lookup)
  qed (use x0 in \<open>auto simp: to_dict_lookup at_path_leaf split: if_splits\<close>)
qed

text \<open>
  Claim C9. For an index that has mappings, the desired mappings are the merge in depth
  of the existing and the new ones. Every field of the existing mappings is still there,
  a value with the value it had and a mapping as a mapping; and the values of the merge
  are exactly the existing values and those values of the new mappings whose path is
  open in the existing ones, at any depth.
\<close>

theorem desired_mappings_additive:
  assumes "map_of index_info (PStr ''mappings'') = Some (PDict existing)" and "existing \<noteq> []"
  shows "\<exists>desired. desired_mappings index_info mappings = Inr desired \<and>
           (\<forall>p x. at_path (PDict existing) p = Some x \<longrightarrow>
                  (\<exists>y. at_path (PDict desired) p = Some y \<and> is_mapping y = is_mapping x \<and>
                       (\<not> is_mapping x \<longrightarrow> y = x))) \<and>
           (\<forall>p v. leaf_at (PDict desired) p v =
                    (leaf_at (PDict existing) p v \<or>
                     (open_path (PDict existing) p \<and> leaf_at (PDict mappings) p v)))"
proof -
  have "desired_mappings index_info mappings = Inr (to_dict [existing, mappings])"
    using assms by (simp add: desired_mappings_def dict_get_def)
  moreover have "\<forall>p x. at_path (PDict existing) p = Some x \<longrightarrow>
      (\<exists>y. at_path (PDict (to_dict [existing, mappings])) p = Some y \<and>
           is_mapping y = is_mapping x \<and> (\<not> is_mapping x \<longrightarrow> y = x))"
    using path_kept[of existing _ _ "[mappings]"] by blast
  moreover have "\<forall>p v. leaf_at (PDict (to_dict [existing, mappings])) p v =
      (leaf_at (PDict existing) p v \<or>
       (open_path (PDict existing) p \<and> leaf_at (PDict mappings) p v))"
    using leaf_pair by blast
  ultimately show ?thesis by blast
qed

text \<open>With no mappings, or empty ones, the new mappings are taken as they are.\<close>

lemma desired_mappings_none:
  "map_of index_info (PStr ''mappings'') = None \<or>
   map_of index_info (PStr ''mappings'') = Some (PDict []) \<Longrightarrow>
   desired_mappings index_info mappings = Inr mappings"
  by (auto simp: desired_mappings_def dict_get_def)

text \<open>
  The example: \<^verbatim>\<open>dynamic\<close> and the type of \<^verbatim>\<open>id\<close> stay, \<^verbatim>\<open>index\<close> of \<^verbatim>\<open>id\<close>,
  \<^verbatim>\<open>body\<close> and \<^verbatim>\<open>dynamic_templates\<close> are added.
\<close>

theorem desired_mappings_additive_witness:
  "desired_mappings example_index_info example_mappings =
     Inr [(PStr ''dynamic'', PBool True), (PStr ''dynamic_templates'', PList []),
          (PStr ''properties'',
           PDict [(PStr ''id'', PDict [(PStr ''type'', PStr ''keyword''), (PStr ''index'', PBool False)]),
                  (PStr ''body'', PDict [(PStr ''type'', PStr ''text'')])])] \<and>
   leaf_at (PDict (case desired_mappings example_index_info example_mappings of
                     Inr d \<Rightarrow> d | Inl e \<Rightarrow> []))
           [PStr ''properties'', PStr ''id'', PStr ''type''] (PStr ''keyword'') \<and>
   leaf_at (PDict (case desired_mappings example_index_info example_mappings of
                     Inr d \<Rightarrow> d | Inl e \<Rightarrow> []))
           [PStr ''properties'', PStr ''body'', PStr ''type''] (PStr ''text'')"
proof -
  let ?existing = "[(PStr ''dynamic'', PBool True),
              (PStr ''properties'',
               PDict [(PStr ''id'', PDict [(PStr ''type'', PStr ''keyword'')])])]"
  have v: "desired_mappings example_index_info example_mappings =
     Inr [(PStr ''dynamic'', PBool True), (PStr ''dynamic_templates'', PList []),
          (PStr ''properties'',
           PDict [(PStr ''id'', PDict [(PStr ''type'', PStr ''keyword''), (PStr ''index'', PBool False)]),
                  (PStr ''body'', PDict [(PStr ''type'', PStr ''text'')])])]"
    by code_simp
  have h1: "map_of example_index_info (PStr ''mappings'') = Some (PDict ?existing)"
    by (simp add: example_index_info_def)
  have h2: "?existing \<noteq> []" by simp
  from desired_mappings_additive[OF h1 h2, of example_mappings] obtain desired where
    d: "desired_mappings example_index_info example_mappings = Inr desired" and
    l: "\<And>p v. leaf_at (PDict desired) p v =
           (leaf_at (PDict ?existing) p v \<or>
            (open_path (PDict ?existing) p \<and> leaf_at (PDict example_mappings) p v))"
    by blast
  have "leaf_at (PDict ?existing) [PStr ''properties'', PStr ''id'', PStr ''type''] (PStr ''keyword'')"
    by (simp add: leaf_at_def)
  then have a: "leaf_at (PDict desired) [PStr ''properties'', PStr ''id'', PStr ''type''] (PStr ''keyword'')"
    using l by blast
  have "open_path (PDict ?existing) [PStr ''properties'', PStr ''body'', PStr ''type'']"
       "leaf_at (PDict example_mappings) [PStr ''properties'', PStr ''body'', PStr ''type''] (PStr ''text'')"
    by (simp_all add: leaf_at_def example_mappings_def)
  then have b: "leaf_at (PDict desired) [PStr ''properties'', PStr ''body'', PStr ''type''] (PStr ''text'')"
    using l by blast
  from v a b d show ?thesis by simp
qed

end
